theory Spec2Isabelle
  imports Complex_Main "HOL-Library.Sublist"
begin

section \<open>SemanticChunker (alchemy/utils/chunker.py)\<close>

subsection \<open>Strings\<close>

text \<open>
  A Python \<open>str\<close> is modelled as a \<open>string\<close>, one \<open>char\<close> per code point (code points
  below 256). \<open>is_space\<close> lists the code points of that range for which Python's
  \<open>str.isspace\<close> holds; \<open>str.strip()\<close> and the regular expression class \<open>\s\<close> of a
  \<open>str\<close> pattern both use it.
\<close>

definition newline :: char where
  "newline = CHR 0x0A"

definition hash :: char where
  "hash = CHR 0x23"

definition is_space :: "char \<Rightarrow> bool" where
  "is_space c \<longleftrightarrow> c \<in> set [CHR 0x09, CHR 0x0A, CHR 0x0B, CHR 0x0C, CHR 0x0D,
     CHR 0x1C, CHR 0x1D, CHR 0x1E, CHR 0x1F, CHR 0x20, CHR 0x85, CHR 0xA0]"

text \<open>\<open>s.strip()\<close>\<close>

definition strip :: "string \<Rightarrow> string" where
  "strip s = rev (dropWhile is_space (rev (dropWhile is_space s)))"

text \<open>\<open>text[start:end]\<close> for \<open>0 \<le> start\<close>, \<open>0 \<le> end\<close>: never raises, empty when
  \<open>end \<le> start\<close>.\<close>

definition slice :: "string \<Rightarrow> nat \<Rightarrow> nat \<Rightarrow> string" where
  "slice s start end = drop start (take end s)"

text \<open>\<open>"\n\n".join(paras)\<close>\<close>

fun join_paras :: "string list \<Rightarrow> string" where
  "join_paras [] = []"
| "join_paras [p] = p"
| "join_paras (p # q # ps) = p @ [newline, newline] @ join_paras (q # ps)"

text \<open>\<open>_estimate_tokens\<close>: \<open>max(1, len(text) // 4)\<close>\<close>

definition estimate_tokens :: "string \<Rightarrow> int" where
  "estimate_tokens s = max 1 (int (length s) div 4)"

subsection \<open>The two regular expressions\<close>

text \<open>
  \<open>re.split(r"\n\n+", text)\<close>: the pieces of \<open>text\<close> between the separators, a separator
  being a maximal run of two or more newlines (the pattern is greedy and the scan goes
  left to right). A separator at the start or the end leaves an empty piece there.
\<close>

function re_split_blank :: "string \<Rightarrow> string list" where
  "re_split_blank [] = [[]]"
| "re_split_blank (c # cs) =
     (if c = newline \<and> cs \<noteq> [] \<and> hd cs = newline
      then [] # re_split_blank (dropWhile (\<lambda>x. x = newline) cs)
      else (case re_split_blank cs of
              [] \<Rightarrow> [[c]]
            | p # ps \<Rightarrow> (c # p) # ps))"
  by pat_completeness auto
termination
  by (relation "measure length") (auto simp: length_dropWhile_le less_Suc_eq_le)

text \<open>
  The heading pattern \<open>^(#{1,3})\s+(.+)$\<close> with \<open>re.MULTILINE\<close>, matched by
  backtracking as the \<open>re\<close> module does: each greedy quantifier tries its longest
  repetition first and gives characters back one at a time. \<open>first_some\<close> runs the
  alternatives in that order and keeps the first that lets the rest of the pattern match.
\<close>

fun first_some :: "('a \<Rightarrow> 'b option) \<Rightarrow> 'a list \<Rightarrow> 'b option" where
  "first_some f [] = None"
| "first_some f (x # xs) = (case f x of Some y \<Rightarrow> Some y | None \<Rightarrow> first_some f xs)"

definition greedy :: "nat \<Rightarrow> nat \<Rightarrow> nat list" where
  "greedy lo hi = rev [lo..<Suc hi]"

text \<open>\<open>(.+)$\<close> at the start of \<open>s\<close>: \<open>.\<close> is any character but a newline, \<open>$\<close> holds at
  the end of the text and before a newline. Returns the number of characters matched and
  group 2.\<close>

definition match_dot_plus :: "string \<Rightarrow> (nat \<times> string) option" where
  "match_dot_plus s =
     first_some
       (\<lambda>d. let rest = drop d s
            in if rest = [] \<or> hd rest = newline then Some (d, take d s) else None)
       (greedy 1 (length (takeWhile (\<lambda>c. c \<noteq> newline) s)))"

text \<open>\<open>\s+(.+)$\<close> at the start of \<open>s\<close>.\<close>

definition match_space_plus :: "string \<Rightarrow> (nat \<times> string) option" where
  "match_space_plus s =
     first_some
       (\<lambda>j. map_option (\<lambda>(d, g). (j + d, g)) (match_dot_plus (drop j s)))
       (greedy 1 (length (takeWhile is_space s)))"

text \<open>\<open>(#{1,3})\s+(.+)$\<close> at the start of \<open>s\<close>: the length of the match and group 2.\<close>

definition match_heading :: "string \<Rightarrow> (nat \<times> string) option" where
  "match_heading s =
     first_some
       (\<lambda>n. map_option (\<lambda>(l, g). (n + l, g)) (match_space_plus (drop n s)))
       (greedy 1 (min 3 (length (takeWhile (\<lambda>c. c = hash) s))))"

text \<open>A match object: \<open>match.start()\<close>, \<open>match.end()\<close>, \<open>match.group(2)\<close>.\<close>

record heading_match =
  m_start :: nat
  m_end :: nat
  group2 :: string

text \<open>\<open>^\<close> with \<open>re.MULTILINE\<close>: at the start of the text and after each newline.\<close>

definition at_line_start :: "string \<Rightarrow> nat \<Rightarrow> bool" where
  "at_line_start s pos \<longleftrightarrow> pos = 0 \<or> (pos \<le> length s \<and> s ! (pos - 1) = newline)"

lemma first_some_greedy_pos:
  "first_some f (greedy 1 hi) = Some y \<Longrightarrow> \<exists>n\<ge>1. f n = Some y"
proof -
  have gen: "first_some f ns = Some y \<Longrightarrow> \<exists>n\<in>set ns. f n = Some y" for ns
    by (induction ns) (auto split: option.splits)
  assume "first_some f (greedy 1 hi) = Some y"
  from gen[OF this] show ?thesis
    by (auto simp: greedy_def)
qed

lemma match_heading_pos:
  assumes "match_heading s = Some (len, g)"
  shows "1 \<le> len"
proof -
  from first_some_greedy_pos[OF assms[unfolded match_heading_def]]
  obtain n where "1 \<le> n"
    and "map_option (\<lambda>(l, g). (n + l, g)) (match_space_plus (drop n s)) = Some (len, g)"
    by blast
  then show ?thesis by auto
qed

text \<open>
  \<open>list(heading_pattern.finditer(text))\<close>: the non-overlapping matches from left to
  right. The search resumes at the end of the previous match.
\<close>

function finditer_from :: "string \<Rightarrow> nat \<Rightarrow> heading_match list" where
  "finditer_from s pos =
     (if length s < pos then []
      else if at_line_start s pos then
        (case match_heading (drop pos s) of
           Some (len, g) \<Rightarrow>
             \<lparr>m_start = pos, m_end = pos + len, group2 = g\<rparr> # finditer_from s (pos + len)
         | None \<Rightarrow> finditer_from s (pos + 1))
      else finditer_from s (pos + 1))"
  by pat_completeness auto
termination
  by (relation "measure (\<lambda>(s, pos). Suc (length s) - pos)")
     (auto dest: match_heading_pos)

definition finditer :: "string \<Rightarrow> heading_match list" where
  "finditer s = finditer_from s 0"

subsection \<open>Heading segmentation\<close>

text \<open>
  The exceptions the chunker's own statements could raise: indexing the list of matches
  (\<open>matches[0]\<close>, \<open>matches[i + 1]\<close>) raises \<open>IndexError\<close> out of range. Slicing,
  \<open>strip\<close>, \<open>join\<close>, \<open>len\<close>, the integer operations and the two regular expressions
  raise nothing.
\<close>

datatype py_error = IndexError

text \<open>\<open>xs[i]\<close> for \<open>0 \<le> i\<close>\<close>

definition getitem :: "'a list \<Rightarrow> nat \<Rightarrow> py_error + 'a" where
  "getitem xs i = (if i < length xs then Inr (xs ! i) else Inl IndexError)"

type_synonym sect = "string option \<times> string"

text \<open>
  The loop \<open>for i, match in enumerate(matches)\<close> of \<open>_split_by_headings\<close>: \<open>ms\<close> are the
  matches still to visit, \<open>i\<close> the index of the first of them, \<open>sections\<close> the list built
  so far.
\<close>

fun heading_loop ::
  "string \<Rightarrow> heading_match list \<Rightarrow> nat \<Rightarrow> heading_match list \<Rightarrow> sect list
     \<Rightarrow> py_error + sect list" where
  "heading_loop text matches i [] sections = Inr sections"
| "heading_loop text matches i (m # ms) sections =
     (let heading = strip (group2 m);
          start = m_end m
      in case (if i + 1 < length matches
               then map_sum id m_start (getitem matches (i + 1))
               else Inr (length text)) of
           Inl e \<Rightarrow> Inl e
         | Inr end \<Rightarrow>
             (let body = strip (slice text start end)
              in heading_loop text matches (i + 1) ms
                   (if body \<noteq> [] then sections @ [(Some heading, body)] else sections)))"

definition split_by_headings :: "string \<Rightarrow> py_error + sect list" where
  "split_by_headings text =
     (let matches = finditer text
      in if matches = [] then Inr [(None, text)]
         else case getitem matches 0 of
                Inl e \<Rightarrow> Inl e
              | Inr m0 \<Rightarrow>
                  (let preamble = strip (slice text 0 (m_start m0))
                   in heading_loop text matches 0 matches
                        (if preamble \<noteq> [] then [(None, preamble)] else [])))"

subsection \<open>Paragraph windows\<close>

text \<open>
  The inner loop \<open>for p in reversed(current_paras)\<close> of \<open>_sliding_window\<close>: it walks the
  reversed window \<open>rps\<close> and stops (\<open>break\<close>) at the first paragraph that would take the
  carried estimate over \<open>chunk_overlap\<close>. The state is \<open>(overlap_paras, overlap_tokens)\<close>.
\<close>

fun overlap_loop :: "int \<Rightarrow> string list \<Rightarrow> string list \<times> int \<Rightarrow> string list \<times> int" where
  "overlap_loop chunk_overlap [] (overlap_paras, overlap_tokens) =
     (overlap_paras, overlap_tokens)"
| "overlap_loop chunk_overlap (p # rps) (overlap_paras, overlap_tokens) =
     (let t = estimate_tokens p
      in if overlap_tokens + t > chunk_overlap then (overlap_paras, overlap_tokens)
         else overlap_loop chunk_overlap rps (p # overlap_paras, overlap_tokens + t))"

definition overlap :: "int \<Rightarrow> string list \<Rightarrow> string list \<times> int" where
  "overlap chunk_overlap current_paras =
     overlap_loop chunk_overlap (rev current_paras) ([], 0)"

text \<open>
  The outer loop \<open>for para in paragraphs\<close>. The state is
  \<open>(windows, current_tokens, current_paras)\<close>.
\<close>

type_synonym window_state = "string list \<times> int \<times> string list"

definition window_step :: "int \<Rightarrow> int \<Rightarrow> string \<Rightarrow> window_state \<Rightarrow> window_state" where
  "window_step chunk_size chunk_overlap para st =
     (case st of (windows, current_tokens, current_paras) \<Rightarrow>
        let para_tokens = estimate_tokens para
        in if current_tokens + para_tokens > chunk_size \<and> current_paras \<noteq> []
           then (case overlap chunk_overlap current_paras of
                   (overlap_paras, overlap_tokens) \<Rightarrow>
                     (windows @ [join_paras current_paras],
                      overlap_tokens + para_tokens,
                      overlap_paras @ [para]))
           else (windows, current_tokens + para_tokens, current_paras @ [para]))"

fun window_loop :: "int \<Rightarrow> int \<Rightarrow> string list \<Rightarrow> window_state \<Rightarrow> window_state" where
  "window_loop chunk_size chunk_overlap [] st = st"
| "window_loop chunk_size chunk_overlap (para # paras) st =
     window_loop chunk_size chunk_overlap paras
       (window_step chunk_size chunk_overlap para st)"

text \<open>\<open>[p.strip() for p in re.split(r"\n\n+", text) if p.strip()]\<close>\<close>

definition paragraphs :: "string \<Rightarrow> string list" where
  "paragraphs text = map strip (filter (\<lambda>p. strip p \<noteq> []) (re_split_blank text))"

text \<open>The final flush: \<open>if current_paras: windows.append(...)\<close>.\<close>

definition flush :: "window_state \<Rightarrow> string list" where
  "flush st =
     (case st of (windows, current_tokens, current_paras) \<Rightarrow>
        if current_paras \<noteq> [] then windows @ [join_paras current_paras] else windows)"

definition sliding_window :: "int \<Rightarrow> int \<Rightarrow> string \<Rightarrow> string list" where
  "sliding_window chunk_size chunk_overlap text =
     flush (window_loop chunk_size chunk_overlap (paragraphs text) ([], 0, []))"

subsection \<open>chunk\<close>

text \<open>\<open>DocumentChunk\<close> (alchemy/schemas.py); \<open>chunk\<close> leaves \<open>page\<close> at its default.\<close>

record document_chunk =
  chunk_index :: int
  chunk_text :: string
  chunk_page :: "int option"
  chunk_section :: "string option"
  chunk_tokens :: "int option"

type_synonym chunk_state = "document_chunk list \<times> int"

text \<open>The loop \<open>for sub in sub_chunks\<close>; the state is \<open>(chunks, index)\<close>.\<close>

fun sub_loop :: "string option \<Rightarrow> string list \<Rightarrow> chunk_state \<Rightarrow> chunk_state" where
  "sub_loop section_title [] st = st"
| "sub_loop section_title (sub # subs) (chunks, index) =
     sub_loop section_title subs
       (chunks @ [\<lparr>chunk_index = index, chunk_text = strip sub, chunk_page = None,
                   chunk_section = section_title,
                   chunk_tokens = Some (estimate_tokens sub)\<rparr>],
        index + 1)"

text \<open>One iteration of \<open>for section_title, section_text in sections\<close>.\<close>

definition section_step :: "int \<Rightarrow> int \<Rightarrow> sect \<Rightarrow> chunk_state \<Rightarrow> chunk_state" where
  "section_step chunk_size chunk_overlap sec st =
     (case (sec, st) of ((section_title, section_text), (chunks, index)) \<Rightarrow>
        let token_count = estimate_tokens section_text
        in if token_count \<le> chunk_size
           then (chunks @ [\<lparr>chunk_index = index, chunk_text = strip section_text,
                             chunk_page = None, chunk_section = section_title,
                             chunk_tokens = Some token_count\<rparr>],
                 index + 1)
           else sub_loop section_title
                  (sliding_window chunk_size chunk_overlap section_text) (chunks, index))"

fun section_loop :: "int \<Rightarrow> int \<Rightarrow> sect list \<Rightarrow> chunk_state \<Rightarrow> chunk_state" where
  "section_loop chunk_size chunk_overlap [] st = st"
| "section_loop chunk_size chunk_overlap (sec # secs) st =
     section_loop chunk_size chunk_overlap secs
       (section_step chunk_size chunk_overlap sec st)"

text \<open>
  \<open>SemanticChunker(chunk_size, chunk_overlap).chunk(text)\<close>: \<open>Inr\<close> the list returned,
  \<open>Inl\<close> an exception raised.
\<close>

definition chunk :: "int \<Rightarrow> int \<Rightarrow> string \<Rightarrow> py_error + document_chunk list" where
  "chunk chunk_size chunk_overlap text =
     (if text = [] \<or> strip text = [] then Inr []
      else case split_by_headings text of
             Inl e \<Rightarrow> Inl e
           | Inr sections \<Rightarrow>
               Inr (fst (section_loop chunk_size chunk_overlap sections ([], 0))))"

subsection \<open>Windows as lists of paragraphs\<close>

text \<open>
  \<open>_sliding_window\<close> joins a window into one string the moment it flushes it. To speak
  about the paragraphs of a window, \<open>group_loop\<close> is the same loop keeping each flushed
  window as its list of paragraphs; \<open>sliding_window_groups\<close> below shows that joining its
  result gives \<open>sliding_window\<close>.
\<close>

type_synonym group_state = "string list list \<times> int \<times> string list"

definition group_step :: "int \<Rightarrow> int \<Rightarrow> string \<Rightarrow> group_state \<Rightarrow> group_state" where
  "group_step chunk_size chunk_overlap para st =
     (case st of (groups, current_tokens, current_paras) \<Rightarrow>
        let para_tokens = estimate_tokens para
        in if current_tokens + para_tokens > chunk_size \<and> current_paras \<noteq> []
           then (case overlap chunk_overlap current_paras of
                   (overlap_paras, overlap_tokens) \<Rightarrow>
                     (groups @ [current_paras],
                      overlap_tokens + para_tokens,
                      overlap_paras @ [para]))
           else (groups, current_tokens + para_tokens, current_paras @ [para]))"

fun group_loop :: "int \<Rightarrow> int \<Rightarrow> string list \<Rightarrow> group_state \<Rightarrow> group_state" where
  "group_loop chunk_size chunk_overlap [] st = st"
| "group_loop chunk_size chunk_overlap (para # paras) st =
     group_loop chunk_size chunk_overlap paras
       (group_step chunk_size chunk_overlap para st)"

definition flush_groups :: "group_state \<Rightarrow> string list list" where
  "flush_groups st =
     (case st of (groups, current_tokens, current_paras) \<Rightarrow>
        if current_paras \<noteq> [] then groups @ [current_paras] else groups)"

definition window_groups :: "int \<Rightarrow> int \<Rightarrow> string list \<Rightarrow> string list list" where
  "window_groups chunk_size chunk_overlap paras =
     flush_groups (group_loop chunk_size chunk_overlap paras ([], 0, []))"

text \<open>The cumulative size estimate of a list of paragraphs.\<close>

definition tokens_of :: "string list \<Rightarrow> int" where
  "tokens_of paras = sum_list (map estimate_tokens paras)"

text \<open>Each window starts with the paragraphs carried over from the window before it,
  followed by at least one new paragraph.\<close>

fun chained :: "int \<Rightarrow> string list list \<Rightarrow> bool" where
  "chained co [] = True"
| "chained co [g] = True"
| "chained co (g # h # gs) = (strict_prefix (fst (overlap co g)) h \<and> chained co (h # gs))"

text \<open>The invariant of the outer loop.\<close>

definition group_inv :: "int \<Rightarrow> group_state \<Rightarrow> bool" where
  "group_inv co st =
     (case st of (gs, ct, cur) \<Rightarrow>
        ct = tokens_of cur \<and> (cur = [] \<longrightarrow> gs = []) \<and> chained co (gs @ [cur]))"

text \<open>No window is empty and no paragraph of the loop is blank.\<close>

definition nonblank_groups :: "group_state \<Rightarrow> bool" where
  "nonblank_groups st =
     (case st of (gs, ct, cur) \<Rightarrow>
        (\<forall>g\<in>set gs. g \<noteq> [] \<and> (\<forall>p\<in>set g. strip p \<noteq> [])) \<and> (\<forall>p\<in>set cur. strip p \<noteq> []))"

text \<open>A section whose body is trimmed and not empty.\<close>

definition trimmed :: "sect \<Rightarrow> bool" where
  "trimmed sec \<longleftrightarrow> snd sec \<noteq> [] \<and> strip (snd sec) = snd sec"

section \<open>Job queue (alchemy/queue/worker.py)\<close>

subsection \<open>Job\<close>

text \<open>\<open>JobStatus\<close> (alchemy/schemas.py)\<close>

datatype job_status = PENDING | RUNNING | DONE | FAILED

text \<open>The values a payload holds: request fields and their defaults.\<close>

datatype pyval = PyNone | PyBool bool | PyInt int | PyStr string | PyBytes string

text \<open>
  The dataclass \<open>Job\<close>. \<open>'r\<close> is the type of a parse result (a \<open>ParseResponse\<close>);
  \<open>result\<close>, \<open>error\<close> and \<open>completed_at\<close> are \<open>Optional\<close>, \<open>None\<close> by default. The
  field \<open>id\<close> is \<open>job_id\<close> here.
\<close>

record 'r job =
  job_id :: string
  task :: string
  payload :: "string \<rightharpoonup> pyval"
  status :: job_status
  result :: "'r option"
  error :: "string option"
  created_at :: real
  completed_at :: "real option"

text \<open>\<open>Job(id=..., task=..., payload=...)\<close>, created at time \<open>created\<close>.\<close>

definition new_job :: "string \<Rightarrow> string \<Rightarrow> (string \<rightharpoonup> pyval) \<Rightarrow> real \<Rightarrow> 'r job" where
  "new_job jid t p created =
     \<lparr>job_id = jid, task = t, payload = p, status = PENDING, result = None, error = None,
      created_at = created, completed_at = None\<rparr>"

subsection \<open>Exceptions\<close>

text \<open>
  The exceptions \<open>_dispatch\<close> can raise: a missing payload key, an unknown task, a parser
  that is not loaded, and whatever a parse method raises. An exception of a parse method
  that is an instance of \<open>Exception\<close> is kept as \<open>CapabilityError\<close> with its message.
  The await of a parse method can also end with an exception that is not an instance of
  \<open>Exception\<close>: \<open>asyncio.CancelledError\<close> when the task is cancelled while it waits
  (\<open>_worker\<close> has a handler for it), or another \<open>BaseException\<close> such as
  \<open>KeyboardInterrupt\<close>, kept as \<open>BaseError\<close>. \<open>RuntimeError\<close> is also what \<open>run_sync\<close>
  raises.
\<close>

datatype exn =
    KeyError string
  | ValueError string
  | RuntimeError string
  | CapabilityError string
  | CancelledError
  | BaseError string

text \<open>\<open>isinstance(e, Exception)\<close>: what \<open>except Exception\<close> catches.\<close>

fun is_exception :: "exn \<Rightarrow> bool" where
  "is_exception (KeyError k) = True"
| "is_exception (ValueError m) = True"
| "is_exception (RuntimeError m) = True"
| "is_exception (CapabilityError m) = True"
| "is_exception CancelledError = False"
| "is_exception (BaseError m) = False"

text \<open>\<open>str(e)\<close>: for a \<open>KeyError\<close> the key in quotes, otherwise the message.\<close>

fun str_of :: "exn \<Rightarrow> string" where
  "str_of (KeyError k) = [CHR 0x27] @ k @ [CHR 0x27]"
| "str_of (ValueError m) = m"
| "str_of (RuntimeError m) = m"
| "str_of (CapabilityError m) = m"
| "str_of CancelledError = []"
| "str_of (BaseError m) = m"

subsection \<open>The Dispatcher\<close>

text \<open>
  The parsers are the external capabilities: each parse method is a parameter, a function
  of its keyword arguments in the order \<open>_dispatch\<close> passes them that either returns a
  value (\<open>None\<close> for Python's \<open>None\<close>, \<open>Some r\<close> for a parse result \<open>r\<close>) or raises. A \<open>ModelManager\<close> (alchemy/models/manager.py) holds each parser or
  \<open>None\<close> when it was not loaded; the attribute \<open>_document_parser\<close> is
  \<open>document_parser_attr\<close> here, and so on.
\<close>

type_synonym 'r parse4 = "pyval \<Rightarrow> pyval \<Rightarrow> pyval \<Rightarrow> pyval \<Rightarrow> exn + 'r option"

type_synonym 'r parse5 = "pyval \<Rightarrow> pyval \<Rightarrow> pyval \<Rightarrow> pyval \<Rightarrow> pyval \<Rightarrow> exn + 'r option"

record 'r media_parser_obj =
  parse_audio :: "'r parse4"
  parse_video :: "'r parse5"

record 'r model_manager =
  document_parser_attr :: "'r parse5 option"
  image_parser_attr :: "'r parse4 option"
  media_parser_attr :: "'r media_parser_obj option"
  web_parser_attr :: "'r parse5 option"

text \<open>The properties of \<open>ModelManager\<close>: each raises when its parser is not loaded.\<close>

definition document_parser :: "'r model_manager \<Rightarrow> exn + 'r parse5" where
  "document_parser manager =
     (case document_parser_attr manager of
        None \<Rightarrow> Inl (RuntimeError
                  ''Document parser not loaded. Start server with --documents flag.'')
      | Some parser \<Rightarrow> Inr parser)"

definition image_parser :: "'r model_manager \<Rightarrow> exn + 'r parse4" where
  "image_parser manager =
     (case image_parser_attr manager of
        None \<Rightarrow> Inl (RuntimeError ''Image parser not loaded.'')
      | Some parser \<Rightarrow> Inr parser)"

definition media_parser :: "'r model_manager \<Rightarrow> exn + 'r media_parser_obj" where
  "media_parser manager =
     (case media_parser_attr manager of
        None \<Rightarrow> Inl (RuntimeError ''Media parser not loaded. Start server with --media flag.'')
      | Some parser \<Rightarrow> Inr parser)"

definition web_parser :: "'r model_manager \<Rightarrow> exn + 'r parse5" where
  "web_parser manager =
     (case web_parser_attr manager of
        None \<Rightarrow> Inl (RuntimeError ''Web parser not loaded. Start server with --web flag.'')
      | Some parser \<Rightarrow> Inr parser)"

text \<open>\<open>p[k]\<close> raises \<open>KeyError\<close> on a missing key; \<open>p.get(k, d)\<close> and \<open>p.get(k)\<close> do not.\<close>

definition subscript :: "(string \<rightharpoonup> pyval) \<Rightarrow> string \<Rightarrow> exn + pyval" where
  "subscript p k = (case p k of None \<Rightarrow> Inl (KeyError k) | Some v \<Rightarrow> Inr v)"

definition dict_get :: "(string \<rightharpoonup> pyval) \<Rightarrow> string \<Rightarrow> pyval \<Rightarrow> pyval" where
  "dict_get p k d = (case p k of None \<Rightarrow> d | Some v \<Rightarrow> v)"

text \<open>
  \<open>_dispatch\<close>: the parser is looked up first, then the keyword arguments are evaluated
  left to right, then the parse method is called.
\<close>

definition dispatch :: "'r model_manager \<Rightarrow> 'r job \<Rightarrow> exn + 'r option" where
  "dispatch manager job =
     (let p = payload job in
      if task job = ''parse_document'' then
        (case document_parser manager of Inl e \<Rightarrow> Inl e | Inr parse \<Rightarrow>
         case subscript p ''content'' of Inl e \<Rightarrow> Inl e | Inr content \<Rightarrow>
         case subscript p ''filename'' of Inl e \<Rightarrow> Inl e | Inr filename \<Rightarrow>
           parse content filename
             (dict_get p ''extract_tables'' (PyBool True))
             (dict_get p ''extract_images'' (PyBool True))
             (dict_get p ''output_format'' (PyStr ''markdown'')))
      else if task job = ''parse_image'' then
        (case image_parser manager of Inl e \<Rightarrow> Inl e | Inr parse \<Rightarrow>
         case subscript p ''content'' of Inl e \<Rightarrow> Inl e | Inr content \<Rightarrow>
         case subscript p ''filename'' of Inl e \<Rightarrow> Inl e | Inr filename \<Rightarrow>
           parse content filename
             (dict_get p ''task'' (PyStr ''detailed_caption''))
             (dict_get p ''prompt'' PyNone))
      else if task job = ''parse_audio'' then
        (case media_parser manager of Inl e \<Rightarrow> Inl e | Inr parser \<Rightarrow>
         case subscript p ''content'' of Inl e \<Rightarrow> Inl e | Inr content \<Rightarrow>
         case subscript p ''filename'' of Inl e \<Rightarrow> Inl e | Inr filename \<Rightarrow>
           parse_audio parser content filename
             (dict_get p ''language'' PyNone)
             (dict_get p ''diarize'' (PyBool False)))
      else if task job = ''parse_video'' then
        (case media_parser manager of Inl e \<Rightarrow> Inl e | Inr parser \<Rightarrow>
         case subscript p ''content'' of Inl e \<Rightarrow> Inl e | Inr content \<Rightarrow>
         case subscript p ''filename'' of Inl e \<Rightarrow> Inl e | Inr filename \<Rightarrow>
           parse_video parser content filename
             (dict_get p ''language'' PyNone)
             (dict_get p ''diarize'' (PyBool False))
             (dict_get p ''extract_frames'' (PyBool False)))
      else if task job = ''parse_web'' then
        (case web_parser manager of Inl e \<Rightarrow> Inl e | Inr parse \<Rightarrow>
         case subscript p ''url'' of Inl e \<Rightarrow> Inl e | Inr url \<Rightarrow>
           parse url
             (dict_get p ''max_depth'' (PyInt 1))
             (dict_get p ''css_selector'' PyNone)
             (dict_get p ''extraction_schema'' PyNone)
             (dict_get p ''headers'' PyNone))
      else Inl (ValueError (''Unknown task: '' @ task job)))"

subsection \<open>The execution routine\<close>

text \<open>
  \<open>_execute\<close>, assignment by assignment: the list holds the value of the job object
  after each assignment the routine makes. The first is made before \<open>_dispatch\<close> is
  awaited; the others follow its return or its exception with no suspension point
  between them. The routine has three exits: \<open>_dispatch\<close> returns; \<open>_dispatch\<close> raises an
  \<open>Exception\<close>, which \<open>except Exception\<close> catches; \<open>_dispatch\<close> raises anything else,
  which is not caught, so that only the \<open>finally\<close> block runs and the exception leaves
  the routine. \<open>now\<close> is what \<open>time.time()\<close> returns in the \<open>finally\<close> block.
\<close>

definition execute_trace :: "'r model_manager \<Rightarrow> real \<Rightarrow> 'r job \<Rightarrow> 'r job list" where
  "execute_trace manager now job =
     (let j1 = job\<lparr>status := RUNNING\<rparr>
      in case dispatch manager j1 of
           Inr r \<Rightarrow>
             (let j2 = j1\<lparr>result := r\<rparr>;
                  j3 = j2\<lparr>status := DONE\<rparr>;
                  j4 = j3\<lparr>completed_at := Some now\<rparr>
              in [j1, j2, j3, j4])
         | Inl e \<Rightarrow>
             if is_exception e then
               (let j2 = j1\<lparr>error := Some (str_of e)\<rparr>;
                    j3 = j2\<lparr>status := FAILED\<rparr>;
                    j4 = j3\<lparr>completed_at := Some now\<rparr>
                in [j1, j2, j3, j4])
             else
               (let j2 = j1\<lparr>completed_at := Some now\<rparr>
                in [j1, j2]))"

text \<open>The exception that leaves \<open>_execute\<close>, if any.\<close>

definition execute_raises :: "'r model_manager \<Rightarrow> 'r job \<Rightarrow> exn option" where
  "execute_raises manager job =
     (case dispatch manager (job\<lparr>status := RUNNING\<rparr>) of
        Inr r \<Rightarrow> None
      | Inl e \<Rightarrow> if is_exception e then None else Some e)"

text \<open>The job object when \<open>_execute\<close> returns or raises.\<close>

definition execute :: "'r model_manager \<Rightarrow> real \<Rightarrow> 'r job \<Rightarrow> 'r job" where
  "execute manager now job = last (execute_trace manager now job)"

text \<open>
  The states of a job that another coroutine can observe: before the execution, while
  \<open>_dispatch\<close> is awaited, and after \<open>_execute\<close> has returned or raised.
\<close>

definition lifecycle :: "'r model_manager \<Rightarrow> real \<Rightarrow> 'r job \<Rightarrow> 'r job list" where
  "lifecycle manager now job =
     [job, hd (execute_trace manager now job), execute manager now job]"

subsection \<open>The queue\<close>

text \<open>
  Job objects are shared by reference between the caller, the registry \<open>_jobs\<close> and the
  FIFO \<open>_queue\<close>: \<open>heap\<close> maps a reference to the current value of the object, \<open>jobs\<close> is
  the registry, \<open>queue\<close> the FIFO with \<open>None\<close> for the shutdown sentinel, \<open>running\<close> the
  flag \<open>_running\<close>.
\<close>

record 'r state =
  heap :: "nat \<Rightarrow> 'r job"
  jobs :: "string \<rightharpoonup> nat"
  queue :: "nat option list"
  running :: bool

definition enqueue :: "nat \<Rightarrow> 'r state \<Rightarrow> 'r state" where
  "enqueue r s = s\<lparr>jobs := (jobs s)(job_id (heap s r) \<mapsto> r), queue := queue s @ [Some r]\<rparr>"

text \<open>\<open>_execute\<close> mutates the object behind the reference.\<close>

definition execute_ref :: "'r model_manager \<Rightarrow> real \<Rightarrow> nat \<Rightarrow> 'r state \<Rightarrow> 'r state" where
  "execute_ref manager now r s = s\<lparr>heap := (heap s)(r := execute manager now (heap s r))\<rparr>"

text \<open>
  \<open>run_sync\<close>: \<open>Inl\<close> the exception raised, \<open>Inr\<close> the value returned. An exception
  that leaves \<open>_execute\<close> leaves \<open>run_sync\<close> too. \<open>if job.error\<close> is Python truthiness:
  false for \<open>None\<close> and for the empty string.
\<close>

definition run_sync ::
  "'r model_manager \<Rightarrow> real \<Rightarrow> nat \<Rightarrow> 'r state \<Rightarrow> (exn + 'r option) \<times> 'r state" where
  "run_sync manager now r s =
     (let s1 = s\<lparr>jobs := (jobs s)(job_id (heap s r) \<mapsto> r)\<rparr>;
          s2 = execute_ref manager now r s1;
          job = heap s2 r
      in case execute_raises manager (heap s1 r) of
           Some e \<Rightarrow> (Inl e, s2)
         | None \<Rightarrow>
             (case error job of
                None \<Rightarrow> (Inr (result job), s2)
              | Some msg \<Rightarrow>
                  if msg \<noteq> [] then (Inl (RuntimeError msg), s2)
                  else (Inr (result job), s2)))"

text \<open>\<open>get_job\<close>: the registered object, read now.\<close>

definition get_job :: "'r state \<Rightarrow> string \<Rightarrow> 'r job option" where
  "get_job s jid = map_option (heap s) (jobs s jid)"

definition queue_size :: "'r state \<Rightarrow> nat" where
  "queue_size s = length (queue s)"

text \<open>
  One iteration of the loop of \<open>_worker\<close>. \<open>Waiting\<close>: the queue is empty and \<open>get()\<close>
  blocks. \<open>_execute\<close> catches every \<open>Exception\<close> of \<open>_dispatch\<close>, so the branch
  \<open>except Exception\<close> of the loop is not reached from it; \<open>asyncio.CancelledError\<close>
  leaves the loop (\<open>break\<close>), any other exception leaves the worker (\<open>Escaped\<close>).
\<close>

datatype worker_outcome = Stopped | Waiting | Continue | Escaped exn

definition worker_step ::
  "'r model_manager \<Rightarrow> real \<Rightarrow> 'r state \<Rightarrow> worker_outcome \<times> 'r state" where
  "worker_step manager now s =
     (if \<not> running s then (Stopped, s)
      else case queue s of
             [] \<Rightarrow> (Waiting, s)
           | None # rest \<Rightarrow> (Stopped, s\<lparr>queue := rest\<rparr>)
           | Some r # rest \<Rightarrow>
               (let s1 = s\<lparr>queue := rest\<rparr>;
                    s2 = execute_ref manager now r s1
                in case execute_raises manager (heap s1 r) of
                     None \<Rightarrow> (Continue, s2)
                   | Some e \<Rightarrow>
                       if e = CancelledError then (Stopped, s2) else (Escaped e, s2)))"

text \<open>The order of the statuses: \<open>PENDING\<close>, then \<open>RUNNING\<close>, then a terminal status.\<close>

fun status_rank :: "job_status \<Rightarrow> nat" where
  "status_rank PENDING = 0"
| "status_rank RUNNING = 1"
| "status_rank DONE = 2"
| "status_rank FAILED = 2"

subsection \<open>Concrete managers and jobs\<close>

text \<open>
  A manager started with only the web parser, whose \<open>parse\<close> returns the page text;
  one whose web parser raises an exception with an empty message (\<open>str(e) == ""\<close>, as
  for \<open>asyncio.TimeoutError()\<close> or \<open>AssertionError()\<close>); and one whose web parser is
  still awaited when the task is cancelled.
\<close>

definition web_manager :: "string model_manager" where
  "web_manager =
     \<lparr>document_parser_attr = None, image_parser_attr = None, media_parser_attr = None,
      web_parser_attr = Some (\<lambda>_ _ _ _ _. Inr (Some ''page''))\<rparr>"

definition silent_manager :: "string model_manager" where
  "silent_manager =
     \<lparr>document_parser_attr = None, image_parser_attr = None, media_parser_attr = None,
      web_parser_attr = Some (\<lambda>_ _ _ _ _. Inl (CapabilityError []))\<rparr>"

definition cancelled_manager :: "string model_manager" where
  "cancelled_manager =
     \<lparr>document_parser_attr = None, image_parser_attr = None, media_parser_attr = None,
      web_parser_attr = Some (\<lambda>_ _ _ _ _. Inl CancelledError)\<rparr>"

definition web_job :: "string job" where
  "web_job = new_job ''j1'' ''parse_web'' [''url'' \<mapsto> PyStr ''http://example.org''] 1"

definition no_url_job :: "string job" where
  "no_url_job = new_job ''j2'' ''parse_web'' Map.empty 2"

definition bogus_job :: "string job" where
  "bogus_job = new_job ''j3'' ''bogus'' [''url'' \<mapsto> PyStr ''http://example.org''] 3"

text \<open>A queue with running workers whose FIFO holds one job, the object at reference
  \<open>0\<close>.\<close>

definition one_job_state :: "string job \<Rightarrow> string state" where
  "one_job_state job =
     \<lparr>heap = (\<lambda>_. job), jobs = [job_id job \<mapsto> 0], queue = [Some 0], running = True\<rparr>"

text \<open>An idle queue; the caller holds a new job at reference \<open>0\<close>.\<close>

definition idle_state :: "string job \<Rightarrow> string state" where
  "idle_state job = \<lparr>heap = (\<lambda>_. job), jobs = Map.empty, queue = [], running = True\<rparr>"

section \<open>Properties of the chunker\<close>

subsection \<open>Trimming and heading segmentation\<close>

lemma estimate_tokens_pos: "1 \<le> estimate_tokens s"
  by (simp add: estimate_tokens_def)

lemma dropWhile_space_hd: "dropWhile is_space s \<noteq> [] \<Longrightarrow> \<not> is_space (hd (dropWhile is_space s))"
  by (metis hd_dropWhile)

lemma strip_empty_iff: "strip s = [] \<longleftrightarrow> (\<forall>c\<in>set s. is_space c)"
proof -
  have "strip s = [] \<longleftrightarrow> (\<forall>c\<in>set (dropWhile is_space s). is_space c)"
    by (simp add: strip_def dropWhile_eq_Nil_conv)
  also have "\<dots> \<longleftrightarrow> dropWhile is_space s = []"
  proof
    assume a: "\<forall>c\<in>set (dropWhile is_space s). is_space c"
    show "dropWhile is_space s = []"
    proof (rule ccontr)
      assume ne: "dropWhile is_space s \<noteq> []"
      then have "hd (dropWhile is_space s) \<in> set (dropWhile is_space s)" by simp
      with a dropWhile_space_hd[OF ne] show False by blast
    qed
  qed (auto dest: set_dropWhileD)
  also have "\<dots> \<longleftrightarrow> (\<forall>c\<in>set s. is_space c)"
    by (simp add: dropWhile_eq_Nil_conv)
  finally show ?thesis .
qed

lemma strip_Nil: "strip [] = []"
  by (simp add: strip_def)

lemma strip_idem: "strip (strip s) = strip s"
proof (cases "strip s = []")
  case True
  then show ?thesis by (simp add: strip_Nil)
next
  case False
  define t where "t = dropWhile is_space s"
  define u where "u = dropWhile is_space (rev t)"
  have su: "strip s = rev u" by (simp add: strip_def t_def u_def)
  with False have une: "u \<noteq> []" by simp
  then have hu: "\<not> is_space (hd u)" unfolding u_def by (rule dropWhile_space_hd)
  from une have tne: "t \<noteq> []" unfolding u_def by auto
  then have ht: "\<not> is_space (hd t)" unfolding t_def by (rule dropWhile_space_hd)
  have "suffix u (rev t)" unfolding u_def by (rule suffix_dropWhile)
  then obtain v where v: "rev t = v @ u" by (auto simp: suffix_def)
  then have "t = rev u @ rev v" by (metis rev_append rev_rev_ident)
  with une have "hd t = hd (rev u)" by simp
  with ht have "\<not> is_space (hd (rev u))" by simp
  with une have d1: "dropWhile is_space (rev u) = rev u"
    by (cases "rev u") auto
  from hu une have d2: "dropWhile is_space u = u" by (cases u) auto
  show ?thesis unfolding su by (simp add: strip_def d1 d2)
qed

lemma heading_loop_total: "\<exists>secs'. heading_loop s matches i ms secs = Inr secs'"
  by (induction ms arbitrary: i secs) (simp_all add: Let_def getitem_def)

lemma heading_loop_trimmed:
  "heading_loop s matches i ms secs = Inr secs' \<Longrightarrow> \<forall>sec\<in>set secs. trimmed sec
     \<Longrightarrow> \<forall>sec\<in>set secs'. trimmed sec"
proof (induction ms arbitrary: i secs)
  case Nil
  then show ?case by simp
next
  case (Cons m ms)
  define e where "e = (if i + 1 < length matches then m_start (matches ! (i + 1)) else length s)"
  define body where "body = strip (slice s (m_end m) e)"
  define secs1 where "secs1 = (if body \<noteq> [] then secs @ [(Some (strip (group2 m)), body)] else secs)"
  from Cons.prems(1) have "heading_loop s matches (i + 1) ms secs1 = Inr secs'"
    by (simp add: Let_def getitem_def e_def body_def secs1_def split: if_splits)
  moreover from Cons.prems(2) have "\<forall>sec\<in>set secs1. trimmed sec"
    by (simp add: secs1_def body_def trimmed_def strip_idem)
  ultimately show ?case by (rule Cons.IH)
qed

lemma split_by_headings_total: "\<exists>secs. split_by_headings s = Inr secs"
  using heading_loop_total[of s "finditer s" 0 "finditer s"]
  by (simp add: split_by_headings_def Let_def getitem_def)

lemma split_by_headings_trimmed:
  assumes "split_by_headings s = Inr secs" and "finditer s \<noteq> []"
  shows "\<forall>sec\<in>set secs. trimmed sec"
proof -
  let ?pre = "strip (slice s 0 (m_start (finditer s ! 0)))"
  let ?init = "if ?pre \<noteq> [] then [(None, ?pre)] else []"
  from assms have hl: "heading_loop s (finditer s) 0 (finditer s) ?init = Inr secs"
    by (simp add: split_by_headings_def Let_def getitem_def)
  have "\<forall>sec\<in>set ?init. trimmed sec" by (simp add: trimmed_def strip_idem)
  with hl show ?thesis by (rule heading_loop_trimmed)
qed

subsection \<open>The loops of chunk append chunks and count them\<close>

lemma sub_loop_append:
  "sub_loop title subs (chunks, index) =
     (chunks @ fst (sub_loop title subs ([], index)), index + int (length subs))"
proof (induction subs arbitrary: chunks index)
  case Nil
  show ?case by simp
next
  case (Cons sub subs)
  show ?case
    by (simp add: Cons.IH[of "chunks @ _"] Cons.IH[of "[_]"])
qed

lemma sub_loop_length: "length (fst (sub_loop title subs ([], index))) = length subs"
proof (induction subs arbitrary: index)
  case Nil
  show ?case by simp
next
  case (Cons sub subs)
  show ?case by (simp add: sub_loop_append[of _ _ "[_]"] Cons.IH)
qed

lemma section_step_append:
  "section_step cs co sec (chunks, index) =
     (chunks @ fst (section_step cs co sec ([], index)),
      index + int (length (fst (section_step cs co sec ([], index)))))"
  by (cases sec)
     (simp add: section_step_def Let_def sub_loop_append[of _ _ chunks] sub_loop_length)

lemma section_loop_append:
  "section_loop cs co secs (chunks, index) =
     (chunks @ fst (section_loop cs co secs ([], index)),
      index + int (length (fst (section_loop cs co secs ([], index)))))"
proof (induction secs arbitrary: chunks index)
  case Nil
  show ?case by simp
next
  case (Cons sec secs)
  define new where "new = fst (section_step cs co sec ([], index))"
  define rest where "rest = fst (section_loop cs co secs ([], index + int (length new)))"
  have s1: "section_step cs co sec (chunks, index) = (chunks @ new, index + int (length new))"
    by (subst section_step_append) (simp add: new_def)
  have s2: "section_step cs co sec ([], index) = (new, index + int (length new))"
    by (subst section_step_append) (simp add: new_def)
  have l1: "section_loop cs co secs (chunks @ new, index + int (length new)) =
      ((chunks @ new) @ rest, index + int (length new) + int (length rest))"
    by (subst Cons.IH) (simp add: rest_def)
  have l2: "section_loop cs co secs (new, index + int (length new)) =
      (new @ rest, index + int (length new) + int (length rest))"
    by (subst Cons.IH) (simp add: rest_def)
  show ?case by (simp add: s1 s2 l1 l2)
qed

lemma section_loop_app:
  "section_loop cs co (pre @ post) st = section_loop cs co post (section_loop cs co pre st)"
  by (induction pre arbitrary: st) simp_all



lemma sub_loop_indices:
  "map chunk_index (fst (sub_loop title subs ([], index))) =
     map (\<lambda>k. index + int k) [0..<length subs]"
proof (induction subs arbitrary: index)
  case Nil
  show ?case by simp
next
  case (Cons sub subs)
  have st: "sub_loop title (sub # subs) ([], index) =
      sub_loop title subs ([\<lparr>chunk_index = index, chunk_text = strip sub, chunk_page = None,
                   chunk_section = title,
                   chunk_tokens = Some (estimate_tokens sub)\<rparr>], index + 1)"
    by simp
  have m: "map (\<lambda>k. index + int k) [0..<length (sub # subs)] =
        index # map (\<lambda>k. index + 1 + int k) [0..<length subs]"
    by (simp add: map_upt_Suc add.assoc del: upt_Suc)
  show ?case
    unfolding st m
    by (subst sub_loop_append) (simp add: Cons.IH)
qed

lemma section_step_indices:
  "map chunk_index (fst (section_step cs co sec ([], index))) =
     map (\<lambda>k. index + int k) [0..<length (fst (section_step cs co sec ([], index)))]"
proof (cases sec)
  case (Pair title body)
  show ?thesis
  proof (cases "estimate_tokens body \<le> cs")
    case True
    with Pair show ?thesis by (simp add: section_step_def Let_def)
  next
    case False
    with Pair have "section_step cs co sec ([], index) =
        sub_loop title (sliding_window cs co body) ([], index)"
      by (simp add: section_step_def Let_def)
    then show ?thesis by (simp only: sub_loop_indices sub_loop_length)
  qed
qed


lemma section_loop_Cons_empty:
  "fst (section_loop cs co (sec # secs) ([], index)) =
     fst (section_step cs co sec ([], index)) @
     fst (section_loop cs co secs
            ([], index + int (length (fst (section_step cs co sec ([], index))))))"
proof -
  define new where "new = fst (section_step cs co sec ([], index))"
  have s2: "section_step cs co sec ([], index) = (new, index + int (length new))"
    by (subst section_step_append) (simp add: new_def)
  have "section_loop cs co (sec # secs) ([], index) =
      section_loop cs co secs (new, index + int (length new))"
    by (simp only: section_loop.simps s2)
  also have "fst \<dots> = new @ fst (section_loop cs co secs ([], index + int (length new)))"
    by (subst section_loop_append) simp
  finally show ?thesis by (simp only: new_def)
qed

lemma map_upt_add_shift:
  "map f [0..<m + n] = map f [0..<m] @ map (\<lambda>k. f (m + k)) [0..<n]"
  by (induction n) simp_all

lemma section_loop_indices:
  "map chunk_index (fst (section_loop cs co secs ([], index))) =
     map (\<lambda>k. index + int k) [0..<length (fst (section_loop cs co secs ([], index)))]"
proof (induction secs arbitrary: index)
  case Nil
  show ?case by simp
next
  case (Cons sec secs)
  define new where "new = fst (section_step cs co sec ([], index))"
  define rest where "rest = fst (section_loop cs co secs ([], index + int (length new)))"
  have e: "fst (section_loop cs co (sec # secs) ([], index)) = new @ rest"
    unfolding new_def rest_def by (rule section_loop_Cons_empty)
  have a: "map chunk_index new = map (\<lambda>k. index + int k) [0..<length new]"
    unfolding new_def by (rule section_step_indices)
  have b: "map chunk_index rest =
      map (\<lambda>k. index + int (length new) + int k) [0..<length rest]"
    unfolding rest_def by (rule Cons.IH)
  show ?case
    unfolding e
    by (simp only: map_append length_append map_upt_add_shift a b)
       (simp add: add.assoc)
qed

lemma chunk_total: "\<exists>chunks. chunk cs co s = Inr chunks"
  using split_by_headings_total[of s] by (auto simp: chunk_def)

lemma chunk_nonblank:
  assumes "strip s \<noteq> []" and "split_by_headings s = Inr secs"
  shows "chunk cs co s = Inr (fst (section_loop cs co secs ([], 0)))"
proof -
  from assms(1) have "s \<noteq> []" by (auto simp: strip_Nil)
  with assms show ?thesis by (simp add: chunk_def)
qed

subsection \<open>Paragraph windows\<close>

lemma tokens_of_nonneg: "0 \<le> tokens_of ps"
  unfolding tokens_of_def
  by (rule sum_list_nonneg) (auto simp: estimate_tokens_def)

lemma tokens_of_simps:
  "tokens_of [] = 0"
  "tokens_of (p # ps) = estimate_tokens p + tokens_of ps"
  "tokens_of (ps @ qs) = tokens_of ps + tokens_of qs"
  "tokens_of (rev ps) = tokens_of ps"
  by (simp_all add: tokens_of_def rev_map[symmetric])

lemma overlap_loop_spec:
  "overlap_loop co rps (acc, t) = (ov, ot) \<Longrightarrow>
     \<exists>k\<le>length rps. ov = rev (take k rps) @ acc \<and> ot = t + tokens_of (take k rps)
        \<and> (0 < k \<longrightarrow> ot \<le> co)"
proof (induction rps arbitrary: acc t)
  case Nil
  then show ?case by (simp add: tokens_of_simps)
next
  case (Cons p rps)
  show ?case
  proof (cases "t + estimate_tokens p > co")
    case True
    with Cons.prems have "ov = acc" "ot = t" by (simp_all add: Let_def)
    then show ?thesis by (intro exI[of _ 0]) (simp add: tokens_of_simps)
  next
    case False
    with Cons.prems have "overlap_loop co rps (p # acc, t + estimate_tokens p) = (ov, ot)"
      by (simp add: Let_def)
    from Cons.IH[OF this] obtain k where k: "k \<le> length rps"
      "ov = rev (take k rps) @ p # acc" "ot = t + estimate_tokens p + tokens_of (take k rps)"
      "0 < k \<longrightarrow> ot \<le> co" by blast
    have "ot \<le> co"
    proof (cases "0 < k")
      case True
      with k show ?thesis by simp
    next
      case False
      with k \<open>\<not> t + estimate_tokens p > co\<close> show ?thesis by (simp add: tokens_of_simps)
    qed
    with k show ?thesis
      by (intro exI[of _ "Suc k"]) (simp add: tokens_of_simps)
  qed
qed

lemma overlap_spec:
  assumes "overlap co cur = (ov, ot)"
  shows "suffix ov cur" and "ot = tokens_of ov" and "ov \<noteq> [] \<Longrightarrow> ot \<le> co"
    and "0 \<le> co \<Longrightarrow> ot \<le> co" and "co < 1 \<Longrightarrow> ov = []"
proof -
  from assms have "overlap_loop co (rev cur) ([], 0) = (ov, ot)" by (simp add: overlap_def)
  from overlap_loop_spec[OF this] obtain k where k: "k \<le> length cur"
    "ov = rev (take k (rev cur))" "ot = tokens_of (take k (rev cur))" "0 < k \<longrightarrow> ot \<le> co"
    by auto
  have "rev (take k (rev cur)) = drop (length cur - k) cur"
    by (simp add: take_rev)
  with k show "suffix ov cur" by (simp add: suffix_drop)
  from k show tok: "ot = tokens_of ov" by (simp add: tokens_of_simps)
  from k show b: "ov \<noteq> [] \<Longrightarrow> ot \<le> co" by (cases k) auto
  show "0 \<le> co \<Longrightarrow> ot \<le> co"
    using b tok by (cases "ov = []") (simp_all add: tokens_of_simps)
  show "co < 1 \<Longrightarrow> ov = []"
  proof (rule ccontr)
    assume "co < 1" and ne: "ov \<noteq> []"
    from ne have "1 \<le> tokens_of ov"
      using estimate_tokens_pos[of "hd ov"] tokens_of_nonneg[of "tl ov"]
      by (cases ov) (simp_all add: tokens_of_simps)
    with b[OF ne] tok \<open>co < 1\<close> show False by simp
  qed
qed

lemma window_step_groups:
  "window_step cs co para (map join_paras gs, ct, cur) =
     (case group_step cs co para (gs, ct, cur) of
        (gs', ct', cur') \<Rightarrow> (map join_paras gs', ct', cur'))"
  by (simp add: window_step_def group_step_def Let_def split: prod.splits)

lemma window_loop_groups:
  "window_loop cs co ps (map join_paras gs, ct, cur) =
     (case group_loop cs co ps (gs, ct, cur) of
        (gs', ct', cur') \<Rightarrow> (map join_paras gs', ct', cur'))"
proof (induction ps arbitrary: gs ct cur)
  case Nil
  show ?case by simp
next
  case (Cons para ps)
  obtain gs1 ct1 cur1 where st: "group_step cs co para (gs, ct, cur) = (gs1, ct1, cur1)"
    by (cases "group_step cs co para (gs, ct, cur)") auto
  show ?case
    by (simp add: window_step_groups st Cons.IH)
qed

lemma sliding_window_groups:
  "sliding_window cs co s = map join_paras (window_groups cs co (paragraphs s))"
proof -
  obtain gs ct cur where st: "group_loop cs co (paragraphs s) ([], 0, []) = (gs, ct, cur)"
    by (cases "group_loop cs co (paragraphs s) ([], 0, [])") auto
  have "window_loop cs co (paragraphs s) (map join_paras [], 0, []) =
      (map join_paras gs, ct, cur)"
    by (simp only: window_loop_groups st prod.case)
  then show ?thesis
    by (simp add: sliding_window_def window_groups_def st flush_def flush_groups_def)
qed

lemma chained_snoc:
  "gs \<noteq> [] \<Longrightarrow>
     chained co (gs @ [h]) \<longleftrightarrow> chained co gs \<and> strict_prefix (fst (overlap co (last gs))) h"
  by (induction co gs rule: chained.induct) auto

lemma chained_nth:
  "chained co gs \<Longrightarrow> Suc i < length gs \<Longrightarrow>
     strict_prefix (fst (overlap co (gs ! i))) (gs ! Suc i)"
proof (induction co gs arbitrary: i rule: chained.induct)
  case (3 co g h gs)
  then show ?case by (cases i) auto
qed simp_all

lemma strict_prefix_snoc: "strict_prefix xs ys \<Longrightarrow> strict_prefix xs (ys @ [y])"
  by (auto simp: strict_prefix_def prefix_def)

lemma group_step_inv:
  assumes "group_inv co (gs, ct, cur)"
  shows "group_inv co (group_step cs co para (gs, ct, cur))"
proof -
  from assms have ct: "ct = tokens_of cur" and e: "cur = [] \<longrightarrow> gs = []"
    and ch: "chained co (gs @ [cur])"
    by (simp_all add: group_inv_def)
  show ?thesis
  proof (cases "ct + estimate_tokens para > cs \<and> cur \<noteq> []")
    case True
    obtain ov ot where ov: "overlap co cur = (ov, ot)" by (cases "overlap co cur") auto
    with True have st: "group_step cs co para (gs, ct, cur) =
        (gs @ [cur], ot + estimate_tokens para, ov @ [para])"
      by (simp add: group_step_def Let_def)
    have sp: "strict_prefix (fst (overlap co (last (gs @ [cur])))) (ov @ [para])"
      by (simp add: ov strict_prefix_def)
    have "chained co ((gs @ [cur]) @ [ov @ [para]])"
      by (subst chained_snoc) (use ch sp in simp_all)
    moreover have "ot + estimate_tokens para = tokens_of (ov @ [para])"
      using overlap_spec(2)[OF ov] by (simp add: tokens_of_simps)
    ultimately show ?thesis
      unfolding st group_inv_def by simp
  next
    case False
    then have st: "group_step cs co para (gs, ct, cur) =
        (gs, ct + estimate_tokens para, cur @ [para])"
      by (auto simp: group_step_def Let_def)
    have tk: "ct + estimate_tokens para = tokens_of (cur @ [para])"
      using ct by (simp add: tokens_of_simps)
    have "chained co (gs @ [cur @ [para]])"
    proof (cases "gs = []")
      case True
      then show ?thesis by simp
    next
      case ne: False
      from ch have "chained co gs" and "strict_prefix (fst (overlap co (last gs))) cur"
        by (simp_all add: chained_snoc[OF ne])
      then have "chained co gs \<and> strict_prefix (fst (overlap co (last gs))) (cur @ [para])"
        by (simp add: strict_prefix_snoc)
      then show ?thesis by (simp only: chained_snoc[OF ne])
    qed
    with tk show ?thesis
      unfolding st group_inv_def by simp
  qed
qed

lemma group_loop_inv:
  "group_inv co st \<Longrightarrow> group_inv co (group_loop cs co ps st)"
proof (induction ps arbitrary: st)
  case Nil
  then show ?case by simp
next
  case (Cons para ps)
  obtain gs ct cur where "st = (gs, ct, cur)" by (cases st) auto
  with Cons.prems have "group_inv co (group_step cs co para st)"
    by (simp add: group_step_inv)
  then show ?case by (simp add: Cons.IH)
qed

lemma window_groups_chained: "chained co (window_groups cs co ps)"
proof -
  obtain gs ct cur where st: "group_loop cs co ps ([], 0, []) = (gs, ct, cur)"
    by (cases "group_loop cs co ps ([], 0, [])") auto
  have "group_inv co ([], 0, [])" by (simp add: group_inv_def tokens_of_simps)
  from group_loop_inv[OF this, of cs ps] have "group_inv co (gs, ct, cur)" by (simp add: st)
  then show ?thesis
    by (auto simp: window_groups_def st flush_groups_def group_inv_def)
qed

lemma overlap_bound: "tokens_of (fst (overlap co g)) \<le> max 0 co"
proof -
  obtain ov ot where ov: "overlap co g = (ov, ot)" by (cases "overlap co g") auto
  show ?thesis
  proof (cases "ov = []")
    case True
    with ov show ?thesis by (simp add: tokens_of_simps)
  next
    case False
    from overlap_spec(3)[OF ov False] overlap_spec(2)[OF ov] ov show ?thesis by simp
  qed
qed

lemma group_loop_app:
  "group_loop cs co (ps @ qs) st = group_loop cs co qs (group_loop cs co ps st)"
  by (induction ps arbitrary: st) simp_all

lemma group_step_extends:
  "\<exists>more ct' cur'. group_step cs co para (gs, ct, cur) = (gs @ more, ct', cur') \<and> cur' \<noteq> []"
  by (cases "overlap co cur") (simp add: group_step_def Let_def)

lemma group_loop_extends:
  "\<exists>more ct' cur'. group_loop cs co ps (gs, ct, cur) = (gs @ more, ct', cur')
      \<and> (ps \<noteq> [] \<longrightarrow> cur' \<noteq> [])"
proof (induction ps arbitrary: gs ct cur)
  case Nil
  show ?case by simp
next
  case (Cons para ps)
  from group_step_extends[of cs co para gs ct cur]
  obtain m1 ct1 cur1 where st: "group_step cs co para (gs, ct, cur) = (gs @ m1, ct1, cur1)"
    and ne: "cur1 \<noteq> []" by blast
  from Cons.IH[of "gs @ m1" ct1 cur1]
  obtain m2 ct2 cur2 where lp: "group_loop cs co ps (gs @ m1, ct1, cur1) = ((gs @ m1) @ m2, ct2, cur2)"
    and ne2: "ps \<noteq> [] \<longrightarrow> cur2 \<noteq> []" by blast
  have "cur2 \<noteq> []"
  proof (cases ps)
    case Nil
    with lp ne show ?thesis by simp
  next
    case (Cons a list)
    with ne2 show ?thesis by simp
  qed
  with st lp show ?case by simp
qed

lemma flush_groups_extends:
  "\<exists>more. flush_groups (group_loop cs co ps (gs, ct, cur)) = gs @ more"
proof -
  from group_loop_extends[of cs co ps gs ct cur]
  obtain m ct' cur' where "group_loop cs co ps (gs, ct, cur) = (gs @ m, ct', cur')" by blast
  then show ?thesis by (simp add: flush_groups_def)
qed

text \<open>A window whose running estimate is already above \<open>chunk_size\<close> takes no further
  paragraph: the next paragraph, if any, flushes it as it is.\<close>

lemma full_window_closed:
  assumes "cs < ct" and "cur \<noteq> []"
  shows "\<exists>after. flush_groups (group_loop cs co post (gs, ct, cur)) = gs @ [cur] @ after"
proof (cases post)
  case Nil
  with assms show ?thesis by (simp add: flush_groups_def)
next
  case (Cons q rest)
  obtain ov ot where ov: "overlap co cur = (ov, ot)" by (cases "overlap co cur") auto
  from assms estimate_tokens_pos[of q] have "ct + estimate_tokens q > cs" by simp
  with assms ov have st: "group_step cs co q (gs, ct, cur) =
      (gs @ [cur], ot + estimate_tokens q, ov @ [q])"
    by (simp add: group_step_def Let_def)
  from flush_groups_extends[of cs co rest "gs @ [cur]" "ot + estimate_tokens q" "ov @ [q]"]
  obtain more where "flush_groups (group_loop cs co rest
      (gs @ [cur], ot + estimate_tokens q, ov @ [q])) = (gs @ [cur]) @ more" by blast
  with Cons st show ?thesis by simp
qed

lemma oversized_paragraph_groups:
  assumes "chunk_size < estimate_tokens p"
  shows "\<exists>after.
     window_groups chunk_size chunk_overlap (pre @ p # post) =
       window_groups chunk_size chunk_overlap pre
       @ [(if pre = [] then []
           else fst (overlap chunk_overlap (last (window_groups chunk_size chunk_overlap pre))))
          @ [p]]
       @ after"
proof -
  let ?cs = chunk_size and ?co = chunk_overlap
  obtain gs ct cur where st: "group_loop ?cs ?co pre ([], 0, []) = (gs, ct, cur)"
    by (cases "group_loop ?cs ?co pre ([], 0, [])") auto
  have "group_inv ?co ([], 0, [])" by (simp add: group_inv_def tokens_of_simps)
  from group_loop_inv[OF this, of ?cs pre] st have inv: "ct = tokens_of cur"
    by (simp add: group_inv_def)
  have wg: "window_groups ?cs ?co (pre @ p # post) =
      flush_groups (group_loop ?cs ?co post (group_step ?cs ?co p (gs, ct, cur)))"
    by (simp add: window_groups_def group_loop_app st)
  show ?thesis
  proof (cases "pre = []")
    case True
    with st have e: "gs = []" "ct = 0" "cur = []" by simp_all
    then have s2: "group_step ?cs ?co p (gs, ct, cur) = ([], estimate_tokens p, [p])"
      by (simp add: group_step_def Let_def)
    from full_window_closed[of ?cs "estimate_tokens p" "[p]" ?co post "[]"] assms
    obtain after where "flush_groups (group_loop ?cs ?co post ([], estimate_tokens p, [p])) =
        [] @ [[p]] @ after" by auto
    with True wg s2 show ?thesis
      by (simp add: window_groups_def flush_groups_def)
  next
    case False
    from group_loop_extends[of ?cs ?co pre "[]" 0 "[]"] st False have cne: "cur \<noteq> []" by auto
    then have wpre: "window_groups ?cs ?co pre = gs @ [cur]"
      by (simp add: window_groups_def st flush_groups_def)
    obtain ov ot where ov: "overlap ?co cur = (ov, ot)" by (cases "overlap ?co cur") auto
    from inv tokens_of_nonneg[of cur] assms have "ct + estimate_tokens p > ?cs" by simp
    with cne ov have s2: "group_step ?cs ?co p (gs, ct, cur) =
        (gs @ [cur], ot + estimate_tokens p, ov @ [p])"
      by (simp add: group_step_def Let_def)
    from overlap_spec(2)[OF ov] tokens_of_nonneg[of ov] assms
    have big: "?cs < ot + estimate_tokens p" by simp
    from full_window_closed[OF big, of "ov @ [p]" ?co post "gs @ [cur]"]
    obtain after where "flush_groups (group_loop ?cs ?co post
        (gs @ [cur], ot + estimate_tokens p, ov @ [p])) = (gs @ [cur]) @ [ov @ [p]] @ after"
      by auto
    with False wg s2 wpre ov show ?thesis by simp
  qed
qed

subsection \<open>No blank chunk text\<close>

lemma strip_nonblank_iff: "strip s \<noteq> [] \<longleftrightarrow> (\<exists>c\<in>set s. \<not> is_space c)"
  by (simp add: strip_empty_iff)

lemma join_paras_set: "p \<in> set ps \<Longrightarrow> set p \<subseteq> set (join_paras ps)"
  by (induction ps rule: join_paras.induct) auto

lemma join_paras_nonblank:
  assumes "ps \<noteq> []" and "\<forall>p\<in>set ps. strip p \<noteq> []"
  shows "strip (join_paras ps) \<noteq> []"
proof -
  from assms have "strip (hd ps) \<noteq> []" by simp
  then obtain c where c: "c \<in> set (hd ps)" "\<not> is_space c"
    by (auto simp: strip_nonblank_iff)
  from assms(1) have "hd ps \<in> set ps" by simp
  from join_paras_set[OF this] c have "c \<in> set (join_paras ps)" by blast
  with c show ?thesis by (auto simp: strip_nonblank_iff)
qed

lemma paragraphs_nonblank: "\<forall>p\<in>set (paragraphs s). strip p \<noteq> []"
  by (auto simp: paragraphs_def strip_idem)

lemma group_step_set:
  assumes "group_step cs co para (gs, ct, cur) = (gs', ct', cur')"
  shows "set cur' \<subseteq> insert para (set cur)" and "set gs' \<subseteq> insert cur (set gs)"
    and "[] \<in> set gs' \<Longrightarrow> [] \<in> set gs"
proof -
  obtain ov ot where ov: "overlap co cur = (ov, ot)" by (cases "overlap co cur") auto
  from overlap_spec(1)[OF ov] have sub: "set ov \<subseteq> set cur" by (rule set_mono_suffix)
  from assms ov sub show "set cur' \<subseteq> insert para (set cur)"
    by (auto simp: group_step_def Let_def split: if_splits)
  from assms ov show "set gs' \<subseteq> insert cur (set gs)"
    by (auto simp: group_step_def Let_def split: if_splits)
  from assms ov show "[] \<in> set gs' \<Longrightarrow> [] \<in> set gs"
    by (auto simp: group_step_def Let_def split: if_splits)
qed

lemma group_loop_nonblank:
  "nonblank_groups st \<Longrightarrow> \<forall>p\<in>set ps. strip p \<noteq> [] \<Longrightarrow>
     nonblank_groups (group_loop cs co ps st)"
proof (induction ps arbitrary: st)
  case Nil
  then show ?case by simp
next
  case (Cons para ps)
  obtain gs ct cur where st: "st = (gs, ct, cur)" by (cases st) auto
  obtain gs' ct' cur' where st': "group_step cs co para (gs, ct, cur) = (gs', ct', cur')"
    by (cases "group_step cs co para (gs, ct, cur)") auto
  from group_step_set[OF st'] Cons.prems st
  have "nonblank_groups (gs', ct', cur')"
    unfolding nonblank_groups_def by (simp add: subset_iff) blast
  with Cons.IH[of "(gs', ct', cur')"] Cons.prems(2) st st' show ?case by simp
qed

lemma sliding_window_nonblank: "\<forall>w\<in>set (sliding_window cs co s). strip w \<noteq> []"
proof -
  obtain gs ct cur where st: "group_loop cs co (paragraphs s) ([], 0, []) = (gs, ct, cur)"
    by (cases "group_loop cs co (paragraphs s) ([], 0, [])") auto
  have "nonblank_groups ([], 0, [])" by (simp add: nonblank_groups_def)
  from group_loop_nonblank[OF this paragraphs_nonblank, of cs co s] st
  have nb: "nonblank_groups (gs, ct, cur)" by simp
  have "\<forall>g\<in>set (window_groups cs co (paragraphs s)). g \<noteq> [] \<and> (\<forall>p\<in>set g. strip p \<noteq> [])"
    using nb by (auto simp: window_groups_def st flush_groups_def nonblank_groups_def)
  then have "\<forall>g\<in>set (window_groups cs co (paragraphs s)). strip (join_paras g) \<noteq> []"
    using join_paras_nonblank by blast
  then show ?thesis
    by (simp add: sliding_window_groups)
qed

lemma sub_loop_texts:
  "chunk_text ` set (fst (sub_loop title subs ([], index))) = strip ` set subs"
proof (induction subs arbitrary: index)
  case Nil
  show ?case by simp
next
  case (Cons sub subs)
  have st: "sub_loop title (sub # subs) ([], index) =
      sub_loop title subs ([\<lparr>chunk_index = index, chunk_text = strip sub, chunk_page = None,
                   chunk_section = title,
                   chunk_tokens = Some (estimate_tokens sub)\<rparr>], index + 1)"
    by simp
  show ?case
    unfolding st by (subst sub_loop_append) (simp add: Cons.IH)
qed

lemma section_step_nonblank:
  assumes "strip (snd sec) \<noteq> []"
  shows "\<forall>c\<in>set (fst (section_step cs co sec ([], index))). strip (chunk_text c) \<noteq> []"
proof (cases sec)
  case (Pair title body)
  show ?thesis
  proof (cases "estimate_tokens body \<le> cs")
    case True
    with Pair assms show ?thesis by (simp add: section_step_def Let_def strip_idem)
  next
    case False
    with Pair have e: "section_step cs co sec ([], index) =
        sub_loop title (sliding_window cs co body) ([], index)"
      by (simp add: section_step_def Let_def)
    have "strip (chunk_text c) \<noteq> []"
      if "c \<in> set (fst (sub_loop title (sliding_window cs co body) ([], index)))" for c
    proof -
      from that
      have "chunk_text c \<in> chunk_text ` set (fst (sub_loop title (sliding_window cs co body) ([], index)))"
        by (rule imageI)
      then have "chunk_text c \<in> strip ` set (sliding_window cs co body)"
        by (simp only: sub_loop_texts)
      then obtain w where "w \<in> set (sliding_window cs co body)" "chunk_text c = strip w"
        by blast
      with sliding_window_nonblank[of cs co body] show ?thesis by (simp add: strip_idem)
    qed
    then show ?thesis unfolding e by blast
  qed
qed

lemma section_loop_nonblank:
  "\<forall>sec\<in>set secs. strip (snd sec) \<noteq> [] \<Longrightarrow>
     \<forall>c\<in>set (fst (section_loop cs co secs ([], index))). strip (chunk_text c) \<noteq> []"
proof (induction secs arbitrary: index)
  case Nil
  show ?case by simp
next
  case (Cons sec secs)
  from Cons.prems have "strip (snd sec) \<noteq> []" by simp
  from section_step_nonblank[OF this] Cons.IH Cons.prems show ?case
    unfolding section_loop_Cons_empty by auto
qed

lemma split_by_headings_no_match:
  "finditer s = [] \<Longrightarrow> split_by_headings s = Inr [(None, s)]"
  by (simp add: split_by_headings_def)

lemma chunk_texts_nonblank:
  "\<exists>chunks. chunk cs co s = Inr chunks \<and> (\<forall>c\<in>set chunks. strip (chunk_text c) \<noteq> [])"
proof (cases "strip s = []")
  case True
  then show ?thesis by (simp add: chunk_def)
next
  case False
  obtain secs where secs: "split_by_headings s = Inr secs"
    using split_by_headings_total by blast
  have "\<forall>sec\<in>set secs. strip (snd sec) \<noteq> []"
  proof (cases "finditer s = []")
    case True
    with secs False show ?thesis by (auto simp: split_by_headings_no_match)
  next
    case ne: False
    from split_by_headings_trimmed[OF secs ne] show ?thesis by (auto simp: trimmed_def)
  qed
  from section_loop_nonblank[OF this] chunk_nonblank[OF False secs] show ?thesis by simp
qed

section \<open>Properties of the job queue\<close>

text \<open>\<open>_dispatch\<close> reads the task and the payload of the job and nothing else.\<close>

lemma dispatch_reads_task_payload:
  "task j' = task j \<Longrightarrow> payload j' = payload j \<Longrightarrow> dispatch manager j' = dispatch manager j"
  unfolding dispatch_def by (simp cong: if_cong)

lemma dispatch_running: "dispatch manager (job\<lparr>status := RUNNING\<rparr>) = dispatch manager job"
  by (rule dispatch_reads_task_payload) simp_all

text \<open>The three exits of \<open>_execute\<close>.\<close>

lemma execute_trace_success:
  assumes "dispatch manager job = Inr r"
  shows "execute_trace manager now job =
     [job\<lparr>status := RUNNING\<rparr>,
      job\<lparr>status := RUNNING, result := r\<rparr>,
      job\<lparr>status := DONE, result := r\<rparr>,
      job\<lparr>status := DONE, result := r, completed_at := Some now\<rparr>]"
  using assms by (simp add: execute_trace_def dispatch_running Let_def)

lemma execute_trace_failure:
  assumes "dispatch manager job = Inl e" and "is_exception e"
  shows "execute_trace manager now job =
     [job\<lparr>status := RUNNING\<rparr>,
      job\<lparr>status := RUNNING, error := Some (str_of e)\<rparr>,
      job\<lparr>status := FAILED, error := Some (str_of e)\<rparr>,
      job\<lparr>status := FAILED, error := Some (str_of e), completed_at := Some now\<rparr>]"
  using assms by (simp add: execute_trace_def dispatch_running Let_def)

lemma execute_trace_uncaught:
  assumes "dispatch manager job = Inl e" and "\<not> is_exception e"
  shows "execute_trace manager now job =
     [job\<lparr>status := RUNNING\<rparr>,
      job\<lparr>status := RUNNING, completed_at := Some now\<rparr>]"
  using assms by (simp add: execute_trace_def dispatch_running Let_def)

lemma execute_success:
  "dispatch manager job = Inr r \<Longrightarrow>
     execute manager now job = job\<lparr>status := DONE, result := r, completed_at := Some now\<rparr>"
  by (simp add: execute_def execute_trace_success)

lemma execute_failure:
  "dispatch manager job = Inl e \<Longrightarrow> is_exception e \<Longrightarrow>
     execute manager now job =
       job\<lparr>status := FAILED, error := Some (str_of e), completed_at := Some now\<rparr>"
  by (simp add: execute_def execute_trace_failure)

lemma execute_uncaught:
  "dispatch manager job = Inl e \<Longrightarrow> \<not> is_exception e \<Longrightarrow>
     execute manager now job = job\<lparr>status := RUNNING, completed_at := Some now\<rparr>"
  by (simp add: execute_def execute_trace_uncaught)

lemma execute_raises_success: "dispatch manager job = Inr r \<Longrightarrow> execute_raises manager job = None"
  by (simp add: execute_raises_def dispatch_running)

lemma execute_raises_failure:
  "dispatch manager job = Inl e \<Longrightarrow> is_exception e \<Longrightarrow> execute_raises manager job = None"
  by (simp add: execute_raises_def dispatch_running)

lemma execute_raises_uncaught:
  "dispatch manager job = Inl e \<Longrightarrow> \<not> is_exception e \<Longrightarrow>
     execute_raises manager job = Some e"
  by (simp add: execute_raises_def dispatch_running)

lemma execute_raises_None_caught:
  "execute_raises manager job = None \<Longrightarrow> dispatch manager job = Inl e \<Longrightarrow> is_exception e"
  by (auto simp: execute_raises_def dispatch_running split: if_splits)

lemma dispatch_unknown:
  assumes "task job \<notin> {''parse_document'', ''parse_image'', ''parse_audio'', ''parse_video'',
     ''parse_web''}"
  shows "dispatch manager job = Inl (ValueError (''Unknown task: '' @ task job))"
  using assms by (simp add: dispatch_def)

text \<open>\<open>run_sync\<close>: the registry, the object and the FIFO afterwards; what it returns when
  the job succeeds, and what it raises when the job fails with a non-empty message.\<close>

lemma run_sync_registers:
  "get_job (snd (run_sync manager now r s)) (job_id (heap s r)) =
     Some (execute manager now (heap s r))"
  by (simp add: run_sync_def get_job_def execute_ref_def Let_def split: option.splits)

lemma run_sync_heap:
  "heap (snd (run_sync manager now r s)) r = execute manager now (heap s r)"
  by (simp add: run_sync_def execute_ref_def Let_def split: option.splits)

lemma run_sync_queue: "queue (snd (run_sync manager now r s)) = queue s"
  by (simp add: run_sync_def execute_ref_def Let_def split: option.splits)

lemma run_sync_success:
  assumes "dispatch manager (heap s r) = Inr x" and "error (heap s r) = None"
  shows "fst (run_sync manager now r s) = Inr x"
  using assms
  by (simp add: run_sync_def execute_ref_def Let_def execute_success[OF assms(1)]
      execute_raises_success[OF assms(1)])

lemma run_sync_failure:
  assumes "dispatch manager (heap s r) = Inl e" and "is_exception e" and "str_of e \<noteq> []"
  shows "fst (run_sync manager now r s) = Inl (RuntimeError (str_of e))"
  using assms
  by (simp add: run_sync_def execute_ref_def Let_def execute_failure[OF assms(1,2)]
      execute_raises_failure[OF assms(1,2)])

lemma run_sync_uncaught:
  assumes "dispatch manager (heap s r) = Inl e" and "\<not> is_exception e"
  shows "fst (run_sync manager now r s) = Inl e"
  using assms
  by (simp add: run_sync_def execute_ref_def Let_def execute_raises_uncaught[OF assms])

text \<open>A worker that finds a job at the head of the FIFO.\<close>

lemma worker_step_job:
  assumes "running s" and "queue s = Some r # rest"
  shows "execute_raises manager (heap s r) = None \<Longrightarrow> fst (worker_step manager now s) = Continue"
    and "queue (snd (worker_step manager now s)) = rest"
    and "heap (snd (worker_step manager now s)) r = execute manager now (heap s r)"
    and "jobs (snd (worker_step manager now s)) = jobs s"
  using assms
  by (simp_all add: worker_step_def execute_ref_def Let_def split: option.splits)

text \<open>
  What holds of every new job executed once, whichever exit \<open>_execute\<close> takes: the status
  never moves back, \<open>DONE\<close> and \<open>FAILED\<close> never both occur, the error is set (is not
  \<open>None\<close>) exactly in the status \<open>FAILED\<close>, and the result is set exactly in the status
  \<open>DONE\<close> provided the parse method does not return \<open>None\<close>. The error set in the status
  \<open>FAILED\<close> is \<open>str(e)\<close>, which is not empty provided the message of \<open>e\<close> is not.
\<close>

lemma job_lifecycle_states:
  fixes manager :: "'r model_manager"
  assumes job_def: "job = new_job jid t p created"
  shows "sorted (map (\<lambda>j. status_rank (status j)) (job # execute_trace manager now job))"
    and "\<not> (DONE \<in> status ` set (execute_trace manager now job)
           \<and> FAILED \<in> status ` set (execute_trace manager now job))"
    and "list_all (\<lambda>j. (error j \<noteq> None) = (status j = FAILED)) (lifecycle manager now job)"
    and "dispatch manager job \<noteq> Inr None \<Longrightarrow>
           list_all (\<lambda>j. (result j \<noteq> None) = (status j = DONE)) (lifecycle manager now job)"
    and "status (execute manager now job) = FAILED \<Longrightarrow> dispatch manager job = Inl e \<Longrightarrow>
           error (execute manager now job) = Some (str_of e)"
proof -
  consider (ok) r where "dispatch manager job = Inr r"
    | (caught) e' where "dispatch manager job = Inl e'" "is_exception e'"
    | (uncaught) e' where "dispatch manager job = Inl e'" "\<not> is_exception e'"
    by (cases "dispatch manager job") auto
  note cases = this
  show "sorted (map (\<lambda>j. status_rank (status j)) (job # execute_trace manager now job))"
    using cases
    by cases (simp_all add: execute_trace_success execute_trace_failure execute_trace_uncaught
        job_def new_job_def)
  show "\<not> (DONE \<in> status ` set (execute_trace manager now job)
           \<and> FAILED \<in> status ` set (execute_trace manager now job))"
    using cases
    by cases (simp_all add: execute_trace_success execute_trace_failure execute_trace_uncaught)
  show "list_all (\<lambda>j. (error j \<noteq> None) = (status j = FAILED)) (lifecycle manager now job)"
    using cases
    by cases (simp_all add: lifecycle_def execute_trace_success execute_trace_failure
        execute_trace_uncaught execute_success execute_failure execute_uncaught
        job_def new_job_def)
  show "list_all (\<lambda>j. (result j \<noteq> None) = (status j = DONE)) (lifecycle manager now job)"
    if "dispatch manager job \<noteq> Inr None"
    using cases that
    by cases (simp_all add: lifecycle_def execute_trace_success execute_trace_failure
        execute_trace_uncaught execute_success execute_failure execute_uncaught
        job_def new_job_def)
  show "error (execute manager now job) = Some (str_of e)"
    if "status (execute manager now job) = FAILED" "dispatch manager job = Inl e"
    using cases that
    by cases (auto simp: execute_success execute_failure execute_uncaught)
qed

section \<open>The chunker: claims\<close>

subsection \<open>Oversized paragraphs\<close>

text \<open>
  C5, the claim as stated fails. With \<open>chunk_size = 2\<close> and \<open>chunk_overlap = 1\<close> the text
  \<open>a\<close>, blank line, twelve \<open>b\<close> has two paragraphs; the second has estimate \<open>3 > 2\<close>.
  The window that receives it was seeded with the paragraph \<open>a\<close> carried over from the
  window flushed just before, so the chunk holding the oversized paragraph has the text
  of both paragraphs, and no chunk has the text of the oversized paragraph alone.
\<close>

theorem oversized_paragraph_merged_with_overlap:
  "paragraphs ''a\<newline>\<newline>bbbbbbbbbbbb'' = [''a'', ''bbbbbbbbbbbb'']
   \<and> 2 < estimate_tokens ''bbbbbbbbbbbb''
   \<and> sliding_window 2 1 ''a\<newline>\<newline>bbbbbbbbbbbb'' = [''a'', ''a\<newline>\<newline>bbbbbbbbbbbb'']
   \<and> chunk 2 1 ''a\<newline>\<newline>bbbbbbbbbbbb'' =
       Inr [\<lparr>chunk_index = 0, chunk_text = ''a'', chunk_page = None,
              chunk_section = None, chunk_tokens = Some 1\<rparr>,
            \<lparr>chunk_index = 1, chunk_text = ''a\<newline>\<newline>bbbbbbbbbbbb'', chunk_page = None,
              chunk_section = None, chunk_tokens = Some 3\<rparr>]
   \<and> ''bbbbbbbbbbbb'' \<notin> set (map strip (sliding_window 2 1 ''a\<newline>\<newline>bbbbbbbbbbbb''))"
  by code_simp

text \<open>
  C5, amended. A paragraph \<open>p\<close> whose own estimate exceeds \<open>chunk_size\<close> is never
  truncated or split, and no later paragraph joins its window: the windows of the
  paragraphs before \<open>p\<close> are flushed unchanged, and the next window is exactly the
  paragraphs carried over from the last of them (none when \<open>p\<close> is the first paragraph;
  their cumulative estimate is at most \<open>chunk_overlap\<close>, and \<open>0\<close> when \<open>chunk_overlap\<close> is
  negative) followed by \<open>p\<close>, whole. Its text is \<open>p\<close> alone exactly when nothing is
  carried over.
\<close>

theorem oversized_paragraph_closes_window:
  assumes "paragraphs s = pre @ p # post" and "chunk_size < estimate_tokens p"
  shows "\<exists>carry after.
     carry = (if pre = [] then []
              else fst (overlap chunk_overlap
                         (last (window_groups chunk_size chunk_overlap pre))))
     \<and> tokens_of carry \<le> max 0 chunk_overlap
     \<and> sliding_window chunk_size chunk_overlap s =
         map join_paras (window_groups chunk_size chunk_overlap pre)
         @ [join_paras (carry @ [p])]
         @ after"
proof -
  define carry where "carry = (if pre = [] then []
      else fst (overlap chunk_overlap (last (window_groups chunk_size chunk_overlap pre))))"
  from oversized_paragraph_groups[OF assms(2), of chunk_overlap pre post]
  obtain after where
    "window_groups chunk_size chunk_overlap (pre @ p # post) =
       window_groups chunk_size chunk_overlap pre @ [carry @ [p]] @ after"
    unfolding carry_def by blast
  then have "sliding_window chunk_size chunk_overlap s =
         map join_paras (window_groups chunk_size chunk_overlap pre)
         @ [join_paras (carry @ [p])] @ map join_paras after"
    by (simp add: sliding_window_groups assms(1))
  moreover have "tokens_of carry \<le> max 0 chunk_overlap"
    unfolding carry_def by (simp add: overlap_bound tokens_of_simps)
  ultimately show ?thesis
    unfolding carry_def by blast
qed

theorem oversized_paragraph_closes_window_witness:
  "paragraphs ''a\<newline>\<newline>bbbbbbbbbbbb\<newline>\<newline>c'' = [''a''] @ ''bbbbbbbbbbbb'' # [''c'']
   \<and> 2 < estimate_tokens ''bbbbbbbbbbbb''
   \<and> (\<exists>after. sliding_window 2 1 ''a\<newline>\<newline>bbbbbbbbbbbb\<newline>\<newline>c'' =
         [''a''] @ [''a\<newline>\<newline>bbbbbbbbbbbb''] @ after)"
proof -
  have h1: "paragraphs ''a\<newline>\<newline>bbbbbbbbbbbb\<newline>\<newline>c'' = [''a''] @ ''bbbbbbbbbbbb'' # [''c'']"
    by code_simp
  have h2: "2 < estimate_tokens ''bbbbbbbbbbbb''" by code_simp
  have w: "window_groups 2 1 [''a''] = [[''a'']]" by code_simp
  have o: "fst (overlap 1 [''a'']) = [''a'']" by code_simp
  from oversized_paragraph_closes_window[OF h1 h2, of 1] h1 h2 show ?thesis
    by (simp add: w o newline_def)
qed

subsection \<open>Overlap carry-over\<close>

text \<open>
  C6. \<open>_sliding_window\<close> returns the joined windows of \<open>window_groups\<close>. Every window after
  the first starts with the paragraphs that \<open>overlap\<close> selects from the window flushed
  just before it, followed by at least one new paragraph. What \<open>overlap\<close> selects from a
  window \<open>g\<close> is a suffix of \<open>g\<close> (whole paragraphs, from the end, in their order), the
  estimate it returns is the cumulative estimate of that suffix, and this estimate never
  exceeds \<open>chunk_overlap\<close> (for a negative \<open>chunk_overlap\<close> nothing is carried and the
  estimate is \<open>0\<close>).
\<close>

theorem overlap_seeds_next_window:
  "sliding_window cs co s = map join_paras (window_groups cs co (paragraphs s))
   \<and> (\<forall>i. Suc i < length (window_groups cs co (paragraphs s)) \<longrightarrow>
         (\<exists>new. new \<noteq> [] \<and>
            window_groups cs co (paragraphs s) ! Suc i =
              fst (overlap co (window_groups cs co (paragraphs s) ! i)) @ new))
   \<and> suffix (fst (overlap co g)) g
   \<and> snd (overlap co g) = tokens_of (fst (overlap co g))
   \<and> tokens_of (fst (overlap co g)) \<le> max 0 co"
proof (intro conjI allI impI)
  show "sliding_window cs co s = map join_paras (window_groups cs co (paragraphs s))"
    by (rule sliding_window_groups)
next
  fix i assume "Suc i < length (window_groups cs co (paragraphs s))"
  with window_groups_chained[of co cs "paragraphs s"]
  have "strict_prefix (fst (overlap co (window_groups cs co (paragraphs s) ! i)))
          (window_groups cs co (paragraphs s) ! Suc i)"
    by (rule chained_nth)
  then show "\<exists>new. new \<noteq> [] \<and>
            window_groups cs co (paragraphs s) ! Suc i =
              fst (overlap co (window_groups cs co (paragraphs s) ! i)) @ new"
    by (auto simp: strict_prefix_def prefix_def)
next
  obtain ov ot where ov: "overlap co g = (ov, ot)" by (cases "overlap co g") auto
  from overlap_spec(1)[OF ov] ov show "suffix (fst (overlap co g)) g" by simp
  from overlap_spec(2)[OF ov] ov show "snd (overlap co g) = tokens_of (fst (overlap co g))"
    by simp
next
  show "tokens_of (fst (overlap co g)) \<le> max 0 co" by (rule overlap_bound)
qed

theorem overlap_seeds_next_window_witness:
  "Suc 0 < length (window_groups 3 1 (paragraphs ''aaaaaaaa\<newline>\<newline>b\<newline>\<newline>cccccccc''))
   \<and> window_groups 3 1 (paragraphs ''aaaaaaaa\<newline>\<newline>b\<newline>\<newline>cccccccc'') =
       [[''aaaaaaaa'', ''b''], [''b'', ''cccccccc'']]
   \<and> (\<exists>new. new \<noteq> [] \<and> [''b'', ''cccccccc''] = fst (overlap 1 [''aaaaaaaa'', ''b'']) @ new)
   \<and> suffix (fst (overlap 1 [''aaaaaaaa'', ''b''])) [''aaaaaaaa'', ''b'']
   \<and> tokens_of (fst (overlap 1 [''aaaaaaaa'', ''b''])) \<le> 1"
proof -
  have w: "window_groups 3 1 (paragraphs ''aaaaaaaa\<newline>\<newline>b\<newline>\<newline>cccccccc'') =
       [[''aaaaaaaa'', ''b''], [''b'', ''cccccccc'']]"
    by code_simp
  from overlap_seeds_next_window[of 3 1 "''aaaaaaaa\<newline>\<newline>b\<newline>\<newline>cccccccc''"
      "[''aaaaaaaa'', ''b'']"]
  show ?thesis
    unfolding w by simp
qed

subsection \<open>Sections that fit\<close>

text \<open>
  C7. When \<open>chunk\<close> reaches heading segmentation (the text is not blank) and a section
  \<open>(title, body)\<close> of the segmentation has \<open>estimate_tokens body \<le> chunk_size\<close>, that
  section gives exactly one chunk: the result is the chunks of the sections before it,
  then one chunk with the next index, the trimmed body, the section's heading label and
  the section's estimate, then the chunks of the sections after it. The bound is
  inclusive, so an estimate equal to \<open>chunk_size\<close> does not split (the witness has
  estimate \<open>2\<close> with \<open>chunk_size = 2\<close>).
\<close>

theorem small_section_one_chunk:
  assumes "strip s \<noteq> []"
    and "split_by_headings s = Inr (pre @ (title, body) # post)"
    and "estimate_tokens body \<le> chunk_size"
  shows "\<exists>before after.
     before = fst (section_loop chunk_size chunk_overlap pre ([], 0))
     \<and> after = fst (section_loop chunk_size chunk_overlap post ([], int (length before) + 1))
     \<and> chunk chunk_size chunk_overlap s =
         Inr (before
              @ [\<lparr>chunk_index = int (length before), chunk_text = strip body,
                   chunk_page = None, chunk_section = title,
                   chunk_tokens = Some (estimate_tokens body)\<rparr>]
              @ after)"
proof -
  let ?cs = chunk_size and ?co = chunk_overlap
  define before where "before = fst (section_loop ?cs ?co pre ([], 0))"
  have l1: "section_loop ?cs ?co pre ([], 0) = (before, int (length before))"
    by (subst section_loop_append) (simp add: before_def)
  have st: "section_step ?cs ?co (title, body) (before, int (length before)) =
      (before @ [\<lparr>chunk_index = int (length before), chunk_text = strip body,
                   chunk_page = None, chunk_section = title,
                   chunk_tokens = Some (estimate_tokens body)\<rparr>], int (length before) + 1)"
    using assms(3) by (simp add: section_step_def Let_def)
  have "fst (section_loop ?cs ?co (pre @ (title, body) # post) ([], 0)) =
      before @ [\<lparr>chunk_index = int (length before), chunk_text = strip body,
                   chunk_page = None, chunk_section = title,
                   chunk_tokens = Some (estimate_tokens body)\<rparr>]
      @ fst (section_loop ?cs ?co post ([], int (length before) + 1))"
    by (simp only: section_loop_app l1 section_loop.simps st)
       (subst section_loop_append, simp)
  with chunk_nonblank[OF assms(1,2), of ?cs ?co] show ?thesis
    unfolding before_def by simp
qed

theorem small_section_one_chunk_witness:
  "strip ''# A\<newline>abcdefgh\<newline># B\<newline>xy'' \<noteq> []
   \<and> split_by_headings ''# A\<newline>abcdefgh\<newline># B\<newline>xy'' =
       Inr ([] @ (Some ''A'', ''abcdefgh'') # [(Some ''B'', ''xy'')])
   \<and> estimate_tokens ''abcdefgh'' \<le> 2
   \<and> estimate_tokens ''abcdefgh'' = 2
   \<and> chunk 2 1 ''# A\<newline>abcdefgh\<newline># B\<newline>xy'' =
       Inr [\<lparr>chunk_index = 0, chunk_text = ''abcdefgh'', chunk_page = None,
              chunk_section = Some ''A'', chunk_tokens = Some 2\<rparr>,
            \<lparr>chunk_index = 1, chunk_text = ''xy'', chunk_page = None,
              chunk_section = Some ''B'', chunk_tokens = Some 1\<rparr>]"
proof -
  have h1: "strip ''# A\<newline>abcdefgh\<newline># B\<newline>xy'' \<noteq> []" by code_simp
  have h2: "split_by_headings ''# A\<newline>abcdefgh\<newline># B\<newline>xy'' =
       Inr ([] @ (Some ''A'', ''abcdefgh'') # [(Some ''B'', ''xy'')])" by code_simp
  have h3: "estimate_tokens ''abcdefgh'' \<le> 2" by code_simp
  have e: "estimate_tokens ''abcdefgh'' = 2" by code_simp
  have s1: "strip ''abcdefgh'' = ''abcdefgh''" by code_simp
  have r: "fst (section_step 2 1 (Some ''B'', ''xy'') ([], 1)) =
      [\<lparr>chunk_index = 1, chunk_text = ''xy'', chunk_page = None,
              chunk_section = Some ''B'', chunk_tokens = Some 1\<rparr>]" by code_simp
  from small_section_one_chunk[OF h1 h2 h3, of 1] h1 h2 h3 e show ?thesis
    by (simp add: s1 r)
qed

subsection \<open>Chunk indices\<close>

text \<open>
  C8. For every input text, \<open>chunk\<close> returns a list whose indices are
  \<open>0, 1, 2, ...\<close> in order: contiguous, strictly increasing, starting at \<open>0\<close>, counted
  across all sections of the call and never reset.
\<close>

theorem chunk_indices_contiguous:
  "\<exists>chunks. chunk cs co s = Inr chunks
     \<and> map chunk_index chunks = map int [0..<length chunks]"
proof (cases "s = [] \<or> strip s = []")
  case True
  then show ?thesis by (auto simp: chunk_def)
next
  case False
  obtain secs where "split_by_headings s = Inr secs"
    using split_by_headings_total by blast
  with False have "chunk cs co s = Inr (fst (section_loop cs co secs ([], 0)))"
    by (simp add: chunk_def)
  with section_loop_indices[of cs co secs 0] show ?thesis by simp
qed

subsection \<open>Totality\<close>

text \<open>
  C9. \<open>chunk\<close> never raises: for every text and every configuration it returns a list
  (the two list indexings of \<open>_split_by_headings\<close> are always in range). For the empty
  text and for a text of whitespace only the list is empty.
\<close>

theorem chunk_never_fails:
  "(\<exists>chunks. chunk chunk_size chunk_overlap s = Inr chunks)
   \<and> chunk chunk_size chunk_overlap [] = Inr []
   \<and> ((\<forall>c\<in>set s. is_space c) \<longrightarrow> chunk chunk_size chunk_overlap s = Inr [])"
proof (intro conjI impI)
  show "\<exists>chunks. chunk chunk_size chunk_overlap s = Inr chunks" by (rule chunk_total)
  show "chunk chunk_size chunk_overlap [] = Inr []" by (simp add: chunk_def)
  assume "\<forall>c\<in>set s. is_space c"
  then have "strip s = []" by (simp add: strip_empty_iff)
  then show "chunk chunk_size chunk_overlap s = Inr []" by (simp add: chunk_def)
qed

theorem chunk_never_fails_witness:
  "list_all is_space ('' \<newline>'' @ [CHR 0x09, CHR 0x0D] @ ''\<newline> '')
   \<and> chunk 512 64 ('' \<newline>'' @ [CHR 0x09, CHR 0x0D] @ ''\<newline> '') = Inr []"
proof -
  have h: "\<forall>c\<in>set ('' \<newline>'' @ [CHR 0x09, CHR 0x0D] @ ''\<newline> ''). is_space c"
    by (simp add: is_space_def)
  with chunk_never_fails[of 512 64 "'' \<newline>'' @ [CHR 0x09, CHR 0x0D] @ ''\<newline> ''"]
  have "chunk 512 64 ('' \<newline>'' @ [CHR 0x09, CHR 0x0D] @ ''\<newline> '') = Inr []"
    by blast
  with h show ?thesis by (simp add: list_all_iff)
qed

subsection \<open>Blank bodies\<close>

text \<open>
  C10. A heading whose body is empty after trimming leaves the list of sections as it
  was, and so does a preamble that is empty after trimming; so when the text has
  headings every section has a trimmed, non-empty body. The text \<open># A\<close>, newline,
  \<open># B\<close> is not blank, yet \<open>chunk\<close> returns no chunk for it. No chunk ever has an empty or
  all-whitespace text.
\<close>

theorem blank_sections_dropped:
  "(strip (slice s (m_end m) (if i + 1 < length ms then m_start (ms ! (i + 1)) else length s)) = []
      \<longrightarrow> heading_loop s ms i (m # rest) secs0 = heading_loop s ms (i + 1) rest secs0)
   \<and> (finditer s \<noteq> [] \<and> strip (slice s 0 (m_start (finditer s ! 0))) = []
      \<longrightarrow> split_by_headings s = heading_loop s (finditer s) 0 (finditer s) [])
   \<and> (\<exists>secs. split_by_headings s = Inr secs
      \<and> (finditer s \<noteq> [] \<longrightarrow> (\<forall>sec\<in>set secs. snd sec \<noteq> [] \<and> strip (snd sec) = snd sec)))
   \<and> strip ''# A\<newline># B'' \<noteq> []
   \<and> chunk chunk_size chunk_overlap ''# A\<newline># B'' = Inr []
   \<and> (\<exists>chunks. chunk chunk_size chunk_overlap s = Inr chunks
        \<and> (\<forall>c\<in>set chunks. chunk_text c \<noteq> [] \<and> strip (chunk_text c) \<noteq> []))"
proof (intro conjI impI)
  assume "strip (slice s (m_end m)
      (if i + 1 < length ms then m_start (ms ! (i + 1)) else length s)) = []"
  then show "heading_loop s ms i (m # rest) secs0 = heading_loop s ms (i + 1) rest secs0"
    by (cases "i + 1 < length ms") (simp_all add: Let_def getitem_def)
next
  assume "finditer s \<noteq> [] \<and> strip (slice s 0 (m_start (finditer s ! 0))) = []"
  then show "split_by_headings s = heading_loop s (finditer s) 0 (finditer s) []"
    by (simp add: split_by_headings_def Let_def getitem_def)
next
  obtain secs where secs: "split_by_headings s = Inr secs"
    using split_by_headings_total by blast
  with split_by_headings_trimmed[OF secs]
  show "\<exists>secs. split_by_headings s = Inr secs
      \<and> (finditer s \<noteq> [] \<longrightarrow> (\<forall>sec\<in>set secs. snd sec \<noteq> [] \<and> strip (snd sec) = snd sec))"
    by (auto simp: trimmed_def)
next
  show ne: "strip ''# A\<newline># B'' \<noteq> []" by code_simp
  have "split_by_headings ''# A\<newline># B'' = Inr []" by code_simp
  from chunk_nonblank[OF ne this] show "chunk chunk_size chunk_overlap ''# A\<newline># B'' = Inr []"
    by simp
next
  from chunk_texts_nonblank[of chunk_size chunk_overlap s]
  show "\<exists>chunks. chunk chunk_size chunk_overlap s = Inr chunks
        \<and> (\<forall>c\<in>set chunks. chunk_text c \<noteq> [] \<and> strip (chunk_text c) \<noteq> [])"
    by (metis strip_Nil)
qed

theorem blank_sections_dropped_witness:
  "finditer ''# A\<newline># B\<newline>body'' =
     [\<lparr>m_start = 0, m_end = 3, group2 = ''A''\<rparr>, \<lparr>m_start = 4, m_end = 7, group2 = ''B''\<rparr>]
   \<and> strip (slice ''# A\<newline># B\<newline>body'' 0 0) = []
   \<and> strip (slice ''# A\<newline># B\<newline>body'' 3 4) = []
   \<and> split_by_headings ''# A\<newline># B\<newline>body'' = Inr [(Some ''B'', ''body'')]
   \<and> heading_loop ''# A\<newline># B\<newline>body'' (finditer ''# A\<newline># B\<newline>body'') 0
        (finditer ''# A\<newline># B\<newline>body'') [] =
      heading_loop ''# A\<newline># B\<newline>body'' (finditer ''# A\<newline># B\<newline>body'') 1
        [\<lparr>m_start = 4, m_end = 7, group2 = ''B''\<rparr>] []
   \<and> chunk 512 64 ''# A\<newline># B\<newline>body'' =
       Inr [\<lparr>chunk_index = 0, chunk_text = ''body'', chunk_page = None,
              chunk_section = Some ''B'', chunk_tokens = Some 1\<rparr>]"
proof -
  let ?s = "''# A\<newline># B\<newline>body''"
  let ?mA = "\<lparr>m_start = 0, m_end = 3, group2 = ''A''\<rparr>"
  let ?mB = "\<lparr>m_start = 4, m_end = 7, group2 = ''B''\<rparr>"
  have f: "finditer ?s = [?mA, ?mB]" by code_simp
  have p: "strip (slice ?s 0 0) = []" by code_simp
  have b: "strip (slice ?s 3 4) = []" by code_simp
  have sp: "split_by_headings ?s = Inr [(Some ''B'', ''body'')]" by code_simp
  have c: "chunk 512 64 ?s =
       Inr [\<lparr>chunk_index = 0, chunk_text = ''body'', chunk_page = None,
              chunk_section = Some ''B'', chunk_tokens = Some 1\<rparr>]" by code_simp
  from blank_sections_dropped[of ?s ?mA 0 "finditer ?s" "[?mB]" "[]" 512 64] f p b sp c
  show ?thesis by simp
qed

section \<open>The job queue: claims\<close>

subsection \<open>The execution routine\<close>

text \<open>
  C1, the claim as stated fails. \<open>_execute\<close> catches \<open>Exception\<close> only, and its \<open>finally\<close>
  block sets \<open>completed_at\<close> on every exit. When the task is cancelled while the web
  parser is awaited, \<open>asyncio.CancelledError\<close> leaves \<open>_execute\<close>: the job keeps the status
  \<open>RUNNING\<close>, has no error, and has \<open>completed_at\<close> set.
\<close>

theorem cancelled_job_completed_while_running:
  "status web_job = PENDING
   \<and> completed_at web_job = None
   \<and> dispatch cancelled_manager web_job = Inl CancelledError
   \<and> execute_raises cancelled_manager web_job = Some CancelledError
   \<and> status (execute cancelled_manager 7 web_job) = RUNNING
   \<and> error (execute cancelled_manager 7 web_job) = None
   \<and> completed_at (execute cancelled_manager 7 web_job) = Some 7"
proof -
  have a: "status web_job = PENDING" "completed_at web_job = None" "error web_job = None"
    by (simp_all add: web_job_def new_job_def)
  have d: "dispatch cancelled_manager web_job = Inl CancelledError"
    by (simp add: dispatch_def web_job_def new_job_def cancelled_manager_def web_parser_def
        subscript_def)
  have n: "\<not> is_exception CancelledError" by simp
  from a d execute_raises_uncaught[OF d n] execute_uncaught[OF d n, of 7]
  show ?thesis by simp
qed

text \<open>
  C1, amended. For a job that was not executed yet (\<open>PENDING\<close>, no \<open>completed_at\<close>) and a
  dispatch that returns or raises an \<open>Exception\<close> (no exception leaves \<open>_execute\<close>):
  \<open>_execute\<close> first sets the status to \<open>RUNNING\<close> and calls the Dispatcher, whose outcome
  depends on the task and the payload of the job only. When the Dispatcher returns \<open>r\<close>
  the job ends \<open>DONE\<close> with result \<open>r\<close>; when it raises \<open>e\<close> (a parser failure, a missing
  key, a parser that is not loaded, an unknown task) the job ends \<open>FAILED\<close> with error
  \<open>str(e)\<close>. In both cases \<open>completed_at\<close> is assigned once, by the last assignment of
  the routine, when the status is already terminal. So in every state another coroutine
  can observe (before, during the dispatch, after) \<open>completed_at\<close> is set if and only if
  the status is \<open>DONE\<close> or \<open>FAILED\<close>.
\<close>

theorem execute_sets_terminal_state:
  assumes "status job = PENDING" and "completed_at job = None"
    and "execute_raises manager job = None"
  shows "status (hd (execute_trace manager now job)) = RUNNING
    \<and> (task j' = task job \<and> payload j' = payload job
          \<longrightarrow> dispatch manager j' = dispatch manager job)
    \<and> (dispatch manager job = Inr r \<longrightarrow>
          status (execute manager now job) = DONE
          \<and> result (execute manager now job) = r
          \<and> error (execute manager now job) = error job)
    \<and> (dispatch manager job = Inl e \<longrightarrow>
          status (execute manager now job) = FAILED
          \<and> error (execute manager now job) = Some (str_of e)
          \<and> result (execute manager now job) = result job)
    \<and> completed_at (execute manager now job) = Some now
    \<and> list_all (\<lambda>j. completed_at j = None) (butlast (execute_trace manager now job))
    \<and> status (last (butlast (execute_trace manager now job))) = status (execute manager now job)
    \<and> status (execute manager now job) \<in> {DONE, FAILED}
    \<and> list_all (\<lambda>j. (completed_at j \<noteq> None) = (status j \<in> {DONE, FAILED}))
         (lifecycle manager now job)"
proof -
  have rd: "task j' = task job \<and> payload j' = payload job
          \<longrightarrow> dispatch manager j' = dispatch manager job"
    using dispatch_reads_task_payload by blast
  show ?thesis
  proof (cases "dispatch manager job")
    case (Inl e')
    from execute_raises_None_caught[OF assms(3) Inl] have ex: "is_exception e'" .
    from Inl assms(1,2) rd show ?thesis
      by (simp add: execute_trace_failure[OF Inl ex] execute_failure[OF Inl ex] lifecycle_def)
  next
    case (Inr r')
    with assms(1,2) rd show ?thesis
      by (simp add: execute_trace_success[OF Inr] execute_success[OF Inr] lifecycle_def)
  qed
qed

theorem execute_sets_terminal_state_witness:
  "status web_job = PENDING \<and> completed_at web_job = None
   \<and> execute_raises web_manager web_job = None
   \<and> dispatch web_manager web_job = Inr (Some ''page'')
   \<and> status (execute web_manager 7 web_job) = DONE
   \<and> result (execute web_manager 7 web_job) = Some ''page''
   \<and> error (execute web_manager 7 web_job) = None
   \<and> completed_at (execute web_manager 7 web_job) = Some 7
   \<and> status no_url_job = PENDING \<and> completed_at no_url_job = None
   \<and> execute_raises web_manager no_url_job = None
   \<and> dispatch web_manager no_url_job = Inl (KeyError ''url'')
   \<and> status (execute web_manager 8 no_url_job) = FAILED
   \<and> error (execute web_manager 8 no_url_job) = Some (str_of (KeyError ''url''))
   \<and> result (execute web_manager 8 no_url_job) = None
   \<and> completed_at (execute web_manager 8 no_url_job) = Some 8"
proof -
  have a: "status web_job = PENDING" "completed_at web_job = None"
    "error web_job = None"
    by (simp_all add: web_job_def new_job_def)
  have b: "status no_url_job = PENDING" "completed_at no_url_job = None"
    "result no_url_job = None"
    by (simp_all add: no_url_job_def new_job_def)
  have da: "dispatch web_manager web_job = Inr (Some ''page'')"
    by (simp add: dispatch_def web_job_def new_job_def web_manager_def web_parser_def subscript_def)
  have db: "dispatch web_manager no_url_job = Inl (KeyError ''url'')"
    by (simp add: dispatch_def no_url_job_def new_job_def web_manager_def web_parser_def subscript_def)
  have xa: "execute_raises web_manager web_job = None"
    using execute_raises_success[OF da] .
  have xb: "execute_raises web_manager no_url_job = None"
    using execute_raises_failure[OF db] by simp
  from execute_sets_terminal_state[OF a(1,2) xa, of 7 web_job "Some ''page''"]
    execute_sets_terminal_state[OF b(1,2) xb, of 8 no_url_job _ "KeyError ''url''"]
    a b da db xa xb
  show ?thesis by simp
qed

subsection \<open>run_sync\<close>

text \<open>
  C2 fails on the code. \<open>run_sync\<close> decides between raising and returning with
  \<open>if job.error\<close>, which is false for the empty string: when the capability raises an
  exception whose message is empty, the job ends \<open>FAILED\<close> with error \<open>""\<close> and
  \<open>run_sync\<close> returns \<open>None\<close> as if the job had succeeded. Here the web parser raises
  such an exception for a new \<open>parse_web\<close> job.
\<close>

theorem run_sync_returns_on_empty_message:
  "dispatch silent_manager web_job = Inl (CapabilityError [])
   \<and> fst (run_sync silent_manager 5 0 (idle_state web_job)) = Inr None
   \<and> map_option status (get_job (snd (run_sync silent_manager 5 0 (idle_state web_job))) ''j1'')
       = Some FAILED
   \<and> map_option error (get_job (snd (run_sync silent_manager 5 0 (idle_state web_job))) ''j1'')
       = Some (Some [])
   \<and> map_option result (get_job (snd (run_sync silent_manager 5 0 (idle_state web_job))) ''j1'')
       = Some None"
proof -
  have d: "dispatch silent_manager web_job = Inl (CapabilityError [])"
    by (simp add: dispatch_def web_job_def new_job_def silent_manager_def web_parser_def subscript_def)
  have e: "execute silent_manager 5 web_job =
      web_job\<lparr>status := FAILED, error := Some [], completed_at := Some 5\<rparr>"
    using execute_failure[OF d, of 5] by simp
  have x: "execute_raises silent_manager web_job = None"
    using execute_raises_failure[OF d] by simp
  have h: "heap (idle_state web_job) 0 = web_job" by (simp add: idle_state_def)
  have i: "job_id web_job = ''j1''" "result web_job = None"
    by (simp_all add: web_job_def new_job_def)
  have g: "get_job (snd (run_sync silent_manager 5 0 (idle_state web_job))) ''j1'' =
      Some (web_job\<lparr>status := FAILED, error := Some [], completed_at := Some 5\<rparr>)"
    using run_sync_registers[of silent_manager 5 0 "idle_state web_job"] by (simp add: h i e)
  have f: "fst (run_sync silent_manager 5 0 (idle_state web_job)) = Inr None"
    by (simp add: run_sync_def execute_ref_def Let_def h e i x)
  from d g f i show ?thesis by simp
qed

subsection \<open>The lifecycle of a job\<close>

text \<open>
  C3 fails on the code. \<open>_execute\<close> stores \<open>str(e)\<close> as the error of a failed job; when
  the capability raises an exception whose message is empty, a new job executed once, by
  \<open>run_sync\<close> or by a worker that took it from the queue, ends in the status \<open>FAILED\<close>
  with the empty string as its error: the error is empty although the status is
  \<open>FAILED\<close>. The statuses still move forward only (\<open>PENDING\<close>, \<open>RUNNING\<close>, \<open>FAILED\<close>).
\<close>

theorem failed_job_with_empty_error:
  "map status (lifecycle silent_manager 5 web_job) = [PENDING, RUNNING, FAILED]
   \<and> map error (lifecycle silent_manager 5 web_job) = [None, None, Some []]
   \<and> status (execute silent_manager 5 web_job) = FAILED
   \<and> error (execute silent_manager 5 web_job) = Some []
   \<and> heap (snd (run_sync silent_manager 5 0 (idle_state web_job))) 0 =
       execute silent_manager 5 web_job
   \<and> heap (snd (worker_step silent_manager 5 (one_job_state web_job))) 0 =
       execute silent_manager 5 web_job"
proof -
  have d: "dispatch silent_manager web_job = Inl (CapabilityError [])"
    by (simp add: dispatch_def web_job_def new_job_def silent_manager_def web_parser_def
        subscript_def)
  have x: "is_exception (CapabilityError [])" by simp
  have l: "map status (lifecycle silent_manager 5 web_job) = [PENDING, RUNNING, FAILED]"
    "map error (lifecycle silent_manager 5 web_job) = [None, None, Some []]"
    "status (execute silent_manager 5 web_job) = FAILED"
    "error (execute silent_manager 5 web_job) = Some []"
    by (simp_all add: lifecycle_def execute_trace_failure[OF d x] execute_failure[OF d x])
       (simp_all add: web_job_def new_job_def)
  have r: "heap (snd (run_sync silent_manager 5 0 (idle_state web_job))) 0 =
       execute silent_manager 5 web_job"
    using run_sync_heap[of silent_manager 5 0 "idle_state web_job"]
    by (simp add: idle_state_def)
  have w: "heap (snd (worker_step silent_manager 5 (one_job_state web_job))) 0 =
       execute silent_manager 5 web_job"
    using worker_step_job(3)[of "one_job_state web_job" 0 "[]" silent_manager 5]
    by (simp add: one_job_state_def)
  from l r w show ?thesis by simp
qed

subsection \<open>Unknown task kinds\<close>

text \<open>
  C4. For a job whose task is none of the five recognised kinds, whatever its payload
  and whatever the manager: the Dispatcher raises \<open>ValueError("Unknown task: <task>")\<close>
  without calling a parser, the job ends \<open>FAILED\<close> with that message as its error and no
  result. It is not retried: a worker that executes it removes it from the FIFO, does
  not put it back and goes on; \<open>run_sync\<close> raises the message and leaves the FIFO as it
  was.
\<close>

theorem unknown_task_fails:
  assumes "task job \<notin> {''parse_document'', ''parse_image'', ''parse_audio'', ''parse_video'',
     ''parse_web''}"
  shows "dispatch manager job = Inl (ValueError (''Unknown task: '' @ task job))
    \<and> status (execute manager now job) = FAILED
    \<and> error (execute manager now job) = Some (''Unknown task: '' @ task job)
    \<and> result (execute manager now job) = result job
    \<and> (heap s r = job \<and> running s \<and> queue s = Some r # rest \<longrightarrow>
         fst (worker_step manager now s) = Continue
         \<and> queue (snd (worker_step manager now s)) = rest
         \<and> heap (snd (worker_step manager now s)) r = execute manager now job)
    \<and> (heap s r = job \<longrightarrow>
         fst (run_sync manager now r s) = Inl (RuntimeError (''Unknown task: '' @ task job))
         \<and> queue (snd (run_sync manager now r s)) = queue s
         \<and> get_job (snd (run_sync manager now r s)) (job_id job) = Some (execute manager now job))"
proof -
  have d: "dispatch manager job = Inl (ValueError (''Unknown task: '' @ task job))"
    using assms by (rule dispatch_unknown)
  have e: "execute manager now job =
      job\<lparr>status := FAILED, error := Some (''Unknown task: '' @ task job),
          completed_at := Some now\<rparr>"
    using execute_failure[OF d, of now] by simp
  have x: "execute_raises manager job = None"
    using execute_raises_failure[OF d] by simp
  have w: "heap s r = job \<and> running s \<and> queue s = Some r # rest \<longrightarrow>
         fst (worker_step manager now s) = Continue
         \<and> queue (snd (worker_step manager now s)) = rest
         \<and> heap (snd (worker_step manager now s)) r = execute manager now job"
    using worker_step_job[of s r rest manager now] x by auto
  have rs: "heap s r = job \<longrightarrow>
         fst (run_sync manager now r s) = Inl (RuntimeError (''Unknown task: '' @ task job))
         \<and> queue (snd (run_sync manager now r s)) = queue s
         \<and> get_job (snd (run_sync manager now r s)) (job_id job) = Some (execute manager now job)"
  proof
    assume h: "heap s r = job"
    with d have "dispatch manager (heap s r) = Inl (ValueError (''Unknown task: '' @ task job))"
      by simp
    from run_sync_failure[OF this, of now] run_sync_queue[of manager now r s]
      run_sync_registers[of manager now r s] h
    show "fst (run_sync manager now r s) = Inl (RuntimeError (''Unknown task: '' @ task job))
         \<and> queue (snd (run_sync manager now r s)) = queue s
         \<and> get_job (snd (run_sync manager now r s)) (job_id job) = Some (execute manager now job)"
      by simp
  qed
  from d e w rs show ?thesis by simp
qed

theorem unknown_task_fails_witness:
  "task bogus_job = ''bogus''
   \<and> ''bogus'' \<notin> {''parse_document'', ''parse_image'', ''parse_audio'', ''parse_video'', ''parse_web''}
   \<and> heap (one_job_state bogus_job) 0 = bogus_job
   \<and> running (one_job_state bogus_job) \<and> queue (one_job_state bogus_job) = Some 0 # []
   \<and> status (execute web_manager 9 bogus_job) = FAILED
   \<and> error (execute web_manager 9 bogus_job) = Some ''Unknown task: bogus''
   \<and> result (execute web_manager 9 bogus_job) = None
   \<and> fst (worker_step web_manager 9 (one_job_state bogus_job)) = Continue
   \<and> queue (snd (worker_step web_manager 9 (one_job_state bogus_job))) = []
   \<and> fst (run_sync web_manager 9 0 (one_job_state bogus_job)) =
       Inl (RuntimeError ''Unknown task: bogus'')"
proof -
  have t: "task bogus_job = ''bogus''" "result bogus_job = None"
    by (simp_all add: bogus_job_def new_job_def)
  have n: "task bogus_job \<notin> {''parse_document'', ''parse_image'', ''parse_audio'',
      ''parse_video'', ''parse_web''}"
    by (simp add: t)
  have h: "heap (one_job_state bogus_job) 0 = bogus_job"
    "running (one_job_state bogus_job)" "queue (one_job_state bogus_job) = Some 0 # []"
    by (simp_all add: one_job_state_def)
  from unknown_task_fails[OF n, of web_manager 9 "one_job_state bogus_job" 0 "[]"] t h
  show ?thesis by simp
qed

end
